theory Spec2Isabelle
  imports Complex_Main "HOL-Library.AList"
begin

section \<open>The decimal arithmetic the program rests on\<close>

text \<open>
  \<^verbatim>\<open>NC101A.py\<close> computes with Python's \<^verbatim>\<open>decimal.Decimal\<close> under the context
  it configures in its first statement, \<^verbatim>\<open>getcontext().prec = 60\<close>; every other
  context parameter keeps its default: rounding \<^verbatim>\<open>ROUND_HALF_EVEN\<close>,
  \<^verbatim>\<open>Emax = 999999\<close>, \<^verbatim>\<open>Emin = -999999\<close>, \<^verbatim>\<open>clamp = 0\<close>, and the traps
  \<^verbatim>\<open>InvalidOperation\<close>, \<^verbatim>\<open>DivisionByZero\<close> and \<^verbatim>\<open>Overflow\<close> (a trapped signal is
  raised as an exception, an untrapped one only sets a flag).

  A \<^verbatim>\<open>Decimal\<close> is a sign, a coefficient and an exponent, or an infinity, or a NaN.
  The sign is \<open>True\<close> for a negative number; the flag of a NaN is \<open>True\<close> for a
  signalling NaN. The sign and the payload of a NaN take no part in any operation below
  and are left out.
\<close>

datatype decimal = Fin bool nat int | Inf bool | NaN bool

datatype error = InvalidOperation | Overflow | KeyError | ValueError

datatype rounding = ROUND_DOWN | ROUND_HALF_UP | ROUND_HALF_EVEN

definition prec :: int where "prec = 60"
definition Emax :: int where "Emax = 999999"
definition Emin :: int where "Emin = - 999999"
definition Etiny :: int where "Etiny = Emin - prec + 1"
definition Etop :: int where "Etop = Emax - prec + 1"

text \<open>
  The mathematical value of a finite decimal. An infinity and a NaN have none; \<open>dval\<close>
  gives them 0 and every statement below applies it to finite decimals only.
\<close>

definition pow10 :: "int \<Rightarrow> rat" where
  "pow10 e = (if 0 \<le> e then 10 ^ nat e else 1 / 10 ^ nat (- e))"

fun dval :: "decimal \<Rightarrow> rat" where
  "dval (Fin s c e) = (if s then - 1 else 1) * of_nat c * pow10 e"
| "dval (Inf s) = 0"
| "dval (NaN g) = 0"

fun is_finite :: "decimal \<Rightarrow> bool" where
  "is_finite (Fin s c e) = True"
| "is_finite (Inf s) = False"
| "is_finite (NaN g) = False"

text \<open>\<^verbatim>\<open>len(self._int)\<close>: the number of decimal digits of the coefficient; zero has one.\<close>

fun ndigits :: "nat \<Rightarrow> nat" where
  "ndigits n = (if n < 10 then 1 else Suc (ndigits (n div 10)))"

declare ndigits.simps [simp del]

text \<open>\<^verbatim>\<open>Decimal.adjusted\<close>: the exponent of the most significant digit.\<close>

definition adjusted :: "nat \<Rightarrow> int \<Rightarrow> int" where
  "adjusted c e = e + int (ndigits c) - 1"

text \<open>
  The rounding functions of the library decide from the discarded digits whether the kept
  digits are incremented. Here \<open>k\<close> is the number of discarded digits (\<open>k > 0\<close>),
  \<open>c div 10 ^ k\<close> the kept digits and \<open>c mod 10 ^ k\<close> the discarded ones.
  \<^verbatim>\<open>ROUND_DOWN\<close> never increments; \<^verbatim>\<open>ROUND_HALF_UP\<close> increments when the first
  discarded digit is 5 or more; \<^verbatim>\<open>ROUND_HALF_EVEN\<close> does the same except that on an
  exact half it increments only an odd last kept digit.
\<close>

definition round_coeff :: "rounding \<Rightarrow> nat \<Rightarrow> nat \<Rightarrow> nat" where
  "round_coeff m c k =
     (let q = c div 10 ^ k; r = c mod 10 ^ k
      in case m of
           ROUND_DOWN \<Rightarrow> q
         | ROUND_HALF_UP \<Rightarrow> (if 10 ^ k \<le> 2 * r then q + 1 else q)
         | ROUND_HALF_EVEN \<Rightarrow>
             (if 10 ^ k < 2 * r \<or> (2 * r = 10 ^ k \<and> odd q) then q + 1 else q))"

text \<open>
  \<^verbatim>\<open>Decimal._rescale(exp, rounding)\<close> on a finite number: zero takes the new exponent;
  a larger exponent is padded with zeros; otherwise \<open>k = exp - self._exp\<close> digits are
  discarded. When the number has fewer than \<open>k\<close> digits the library replaces it by
  \<open>10 ^ (exp - 1)\<close> and keeps no digit, which under the three rounding modes above
  gives the coefficient 0.
\<close>

definition rescale :: "bool \<Rightarrow> nat \<Rightarrow> int \<Rightarrow> int \<Rightarrow> rounding \<Rightarrow> decimal" where
  "rescale s c e ex m =
     (if c = 0 then Fin s 0 ex
      else if ex \<le> e then Fin s (c * 10 ^ nat (e - ex)) ex
      else if int (ndigits c) + e - ex < 0 then Fin s 0 ex
      else Fin s (round_coeff m c (nat (ex - e))) ex)"

text \<open>
  \<^verbatim>\<open>Decimal._fix(context)\<close>: the rounding every arithmetic result goes through.
  A zero has its exponent clamped into \<open>[Etiny, Emax]\<close>. A number whose most
  significant digit lies above \<open>Emax\<close> raises \<^verbatim>\<open>Overflow\<close>. A number with more than
  \<open>prec\<close> digits, or with an exponent below \<open>Etiny\<close>, is rounded half-even to the
  exponent \<open>exp_min\<close>; when the increment carries into a digit more than \<open>prec\<close>, the
  last digit (a zero) is dropped and the exponent raised by one.
\<close>

definition dec_fix :: "decimal \<Rightarrow> error + decimal" where
  "dec_fix d =
     (case d of
        Fin s c e \<Rightarrow>
          if c = 0 then Inr (Fin s 0 (min (max e Etiny) Emax))
          else
            let exp_min0 = int (ndigits c) + e - prec
            in if Etop < exp_min0 then Inl Overflow
               else
                 let exp_min = (if exp_min0 < Etiny then Etiny else exp_min0)
                 in if e < exp_min then
                      let coeff =
                            (if int (ndigits c) + e - exp_min < 0 then 0
                             else round_coeff ROUND_HALF_EVEN c (nat (exp_min - e)))
                      in if prec < int (ndigits coeff) then
                           (if Etop < exp_min + 1 then Inl Overflow
                            else Inr (Fin s (coeff div 10) (exp_min + 1)))
                         else Inr (Fin s coeff exp_min)
                    else Inr d
      | Inf s \<Rightarrow> Inr d
      | NaN g \<Rightarrow> Inr d)"

text \<open>
  \<^verbatim>\<open>Decimal.__mul__\<close>: a signalling NaN raises, a quiet NaN propagates, infinity times
  zero raises, and a finite product is the exact product of the coefficients at the sum
  of the exponents, passed through \<open>dec_fix\<close>.
\<close>

definition dec_mul :: "decimal \<Rightarrow> decimal \<Rightarrow> error + decimal" where
  "dec_mul a b =
     (case (a, b) of
        (NaN g, _) \<Rightarrow> (if g \<or> b = NaN True then Inl InvalidOperation else Inr (NaN False))
      | (_, NaN g) \<Rightarrow> (if g then Inl InvalidOperation else Inr (NaN False))
      | (Inf s, Inf t) \<Rightarrow> Inr (Inf (s \<noteq> t))
      | (Inf s, Fin t c e) \<Rightarrow> (if c = 0 then Inl InvalidOperation else Inr (Inf (s \<noteq> t)))
      | (Fin s c e, Inf t) \<Rightarrow> (if c = 0 then Inl InvalidOperation else Inr (Inf (s \<noteq> t)))
      | (Fin s c e, Fin t c' e') \<Rightarrow> dec_fix (Fin (s \<noteq> t) (c * c') (e + e')))"

text \<open>
  \<^verbatim>\<open>Decimal("1").scaleb(-digits_right)\<close>: the operand must lie within
  \<open>\<plusminus> 2 * (Emax + prec)\<close>, and the result \<open>1E-digits_right\<close> goes through
  \<open>dec_fix\<close> (below \<open>Etiny\<close> it underflows to the zero \<open>0E-1000058\<close>, untrapped).
\<close>

definition scaleb_one :: "int \<Rightarrow> error + decimal" where
  "scaleb_one n =
     (if \<not> (- 2 * (Emax + prec) \<le> n \<and> n \<le> 2 * (Emax + prec)) then Inl InvalidOperation
      else dec_fix (Fin False 1 n))"

text \<open>
  \<^verbatim>\<open>Decimal.quantize(exp, rounding)\<close>, where \<open>exp\<close> is a finite decimal (only its
  exponent is used). Every failure is an \<^verbatim>\<open>InvalidOperation\<close>: a signalling NaN, an
  infinity, a target exponent outside \<open>[Etiny, Emax]\<close>, and a result that would have
  more than \<open>prec\<close> digits. A quiet NaN is returned as it is.
\<close>

definition quantize :: "decimal \<Rightarrow> decimal \<Rightarrow> rounding \<Rightarrow> error + decimal" where
  "quantize d ex m =
     (case ex of
        Fin xs xc xe \<Rightarrow>
          (case d of
             NaN g \<Rightarrow> (if g then Inl InvalidOperation else Inr d)
           | Inf s \<Rightarrow> Inl InvalidOperation
           | Fin s c e \<Rightarrow>
               if \<not> (Etiny \<le> xe \<and> xe \<le> Emax) then Inl InvalidOperation
               else if c = 0 then dec_fix (Fin s 0 xe)
               else if Emax < adjusted c e then Inl InvalidOperation
               else if prec < adjusted c e - xe + 1 then Inl InvalidOperation
               else
                 (case rescale s c e xe m of
                    Fin s' c' e' \<Rightarrow>
                      if Emax < adjusted c' e' then Inl InvalidOperation
                      else if prec < int (ndigits c') then Inl InvalidOperation
                      else dec_fix (Fin s' c' e')
                  | other \<Rightarrow> Inr other))
      | _ \<Rightarrow> Inl InvalidOperation)"

text \<open>
  The ordering comparison \<^verbatim>\<open>a < b\<close> of two decimals: numeric, with the infinities at
  the ends; any NaN raises \<^verbatim>\<open>InvalidOperation\<close>.
\<close>

definition dec_less :: "decimal \<Rightarrow> decimal \<Rightarrow> error + bool" where
  "dec_less a b =
     (case (a, b) of
        (NaN g, _) \<Rightarrow> Inl InvalidOperation
      | (_, NaN g) \<Rightarrow> Inl InvalidOperation
      | (Inf s, Inf t) \<Rightarrow> Inr (s \<and> \<not> t)
      | (Inf s, Fin t c e) \<Rightarrow> Inr s
      | (Fin s c e, Inf t) \<Rightarrow> Inr (\<not> t)
      | (Fin s c e, Fin t c' e') \<Rightarrow> Inr (dval a < dval b))"

text \<open>
  \<^verbatim>\<open>Decimal(10) ** digits_left\<close> for a natural exponent: the power of ten, exact at
  every precision, or \<^verbatim>\<open>Overflow\<close> above \<open>Emax\<close>. The value is only compared, so
  the model keeps it as \<open>1E+d\<close>.
\<close>

definition pow_ten :: "nat \<Rightarrow> error + decimal" where
  "pow_ten d = (if Emax < int d then Inl Overflow else Inr (Fin False 1 (int d)))"

text \<open>Unary minus on a nonzero finite decimal of at most \<open>prec\<close> digits flips the sign.\<close>

fun dec_neg :: "decimal \<Rightarrow> decimal" where
  "dec_neg (Fin s c e) = Fin (\<not> s) c e"
| "dec_neg (Inf s) = Inf (\<not> s)"
| "dec_neg (NaN g) = NaN g"

section \<open>Decimals from text\<close>

text \<open>
  \<^verbatim>\<open>Decimal(s)\<close> for a string: surrounding whitespace is stripped, every underscore
  is removed, and the rest must be an optional sign followed by a number (digits with an
  optional fraction and an optional exponent, at least one digit before the exponent),
  an infinity, or a NaN with optional diagnostic digits, letters in either case. Anything
  else raises \<^verbatim>\<open>InvalidOperation\<close>. The conversion is exact; the interpreter refuses a
  decimal outside the largest context it supports (exponent below
  \<open>-1999999999999999997\<close> or leading digit above \<open>10 ^ 999999999999999999\<close>).
  Strings are modelled over the code points 0 to 255, where the whitespace of
  \<^verbatim>\<open>str.strip\<close> is the twelve characters below and the decimal digits are 0 to 9.
\<close>

definition is_space :: "char \<Rightarrow> bool" where
  "is_space c = ((of_char c :: nat) \<in> {9, 10, 11, 12, 13, 28, 29, 30, 31, 32, 133, 160})"

definition strip :: "string \<Rightarrow> string" where
  "strip s = rev (dropWhile is_space (rev (dropWhile is_space s)))"

definition is_digit :: "char \<Rightarrow> bool" where
  "is_digit c = (48 \<le> (of_char c :: nat) \<and> (of_char c :: nat) \<le> 57)"

definition lower :: "char \<Rightarrow> char" where
  "lower c =
     (case map_of (zip ''ABCDEFGHIJKLMNOPQRSTUVWXYZ'' ''abcdefghijklmnopqrstuvwxyz'') c of
        Some l \<Rightarrow> l
      | None \<Rightarrow> c)"

definition nat_of_digits :: "string \<Rightarrow> nat" where
  "nat_of_digits ds = foldl (\<lambda>a c. 10 * a + ((of_char c :: nat) - 48)) 0 ds"

definition parse_sign :: "string \<Rightarrow> bool \<times> string" where
  "parse_sign t =
     (case t of
        [] \<Rightarrow> (False, t)
      | c # r \<Rightarrow> if c = CHR ''-'' then (True, r) else if c = CHR ''+'' then (False, r)
                 else (False, t))"

definition parse_exponent :: "string \<Rightarrow> int option" where
  "parse_exponent r =
     (case r of
        [] \<Rightarrow> Some 0
      | c # t \<Rightarrow>
          if c \<noteq> CHR ''e'' then None
          else (case parse_sign t of
                  (neg, ds) \<Rightarrow>
                    if ds \<noteq> [] \<and> list_all is_digit ds
                    then Some (if neg then - int (nat_of_digits ds) else int (nat_of_digits ds))
                    else None))"

definition exact_ok :: "nat \<Rightarrow> int \<Rightarrow> bool" where
  "exact_ok c e = (- 1999999999999999997 \<le> e \<and> adjusted c e \<le> 999999999999999999)"

definition parse_number :: "bool \<Rightarrow> string \<Rightarrow> error + decimal" where
  "parse_number sg l =
     (let ip = takeWhile is_digit l; r1 = dropWhile is_digit l;
          fp = (case r1 of [] \<Rightarrow> [] | c # r \<Rightarrow> if c = CHR ''.'' then takeWhile is_digit r else []);
          r2 = (case r1 of [] \<Rightarrow> [] | c # r \<Rightarrow> if c = CHR ''.'' then dropWhile is_digit r else r1)
      in if ip = [] \<and> fp = [] then Inl InvalidOperation
         else (case parse_exponent r2 of
                 None \<Rightarrow> Inl InvalidOperation
               | Some x \<Rightarrow>
                   if exact_ok (nat_of_digits (ip @ fp)) (x - int (length fp))
                   then Inr (Fin sg (nat_of_digits (ip @ fp)) (x - int (length fp)))
                   else Inl InvalidOperation))"

definition Decimal_of_str :: "string \<Rightarrow> error + decimal" where
  "Decimal_of_str s =
     (case parse_sign (filter (\<lambda>c. c \<noteq> CHR ''_'') (strip s)) of
        (sg, u) \<Rightarrow>
          let l = map lower u
          in if l = ''inf'' \<or> l = ''infinity'' then Inr (Inf sg)
             else if take 3 l = ''nan'' \<and> list_all is_digit (drop 3 l) then Inr (NaN False)
             else if take 4 l = ''snan'' \<and> list_all is_digit (drop 4 l) then Inr (NaN True)
             else parse_number sg l)"

text \<open>
  \<^verbatim>\<open>NumberLike = Union[str, int, float, Decimal]\<close>. The program converts every such
  value with \<^verbatim>\<open>Decimal(str(raw))\<close>. For a \<^verbatim>\<open>Decimal\<close> the text form reads back as
  the same decimal; for an \<^verbatim>\<open>int\<close> it is the sign and the digits, and \<^verbatim>\<open>str\<close> raises
  \<^verbatim>\<open>ValueError\<close> beyond the interpreter's limit of 4300 digits. Binary floating
  point is not modelled.
\<close>

datatype numberlike = NStr string | NInt int | NDec decimal

definition Decimal_of :: "numberlike \<Rightarrow> error + decimal" where
  "Decimal_of raw =
     (case raw of
        NStr s \<Rightarrow> Decimal_of_str s
      | NInt i \<Rightarrow> (if 4300 < ndigits (nat \<bar>i\<bar>) then Inl ValueError
                   else Inr (Fin (i < 0) (nat \<bar>i\<bar>) 0))
      | NDec d \<Rightarrow> Inr d)"

section \<open>Fields\<close>

text \<open>
  The dataclass \<^verbatim>\<open>Field\<close>. The digit counts are natural numbers, as the data model
  requires them.
\<close>

record Field =
  name :: string
  digits_left :: nat
  digits_right :: nat
  signed :: bool
  value_f :: decimal

definition clone_value :: "Field \<Rightarrow> decimal" where
  "clone_value f = value_f f"

definition Field_quantize :: "Field \<Rightarrow> decimal \<Rightarrow> bool \<Rightarrow> error + decimal" where
  "Field_quantize f v rounded =
     (case scaleb_one (- int (digits_right f)) of
        Inl e \<Rightarrow> Inl e
      | Inr exponent \<Rightarrow> quantize v exponent (if rounded then ROUND_HALF_UP else ROUND_DOWN))"

text \<open>
  \<^verbatim>\<open>Field._fits\<close>: the comparison with zero is made for an unsigned field only; the
  chained comparison \<^verbatim>\<open>-limit < value < limit\<close> evaluates its second half only when
  the first holds.
\<close>

definition Field_fits :: "Field \<Rightarrow> decimal \<Rightarrow> error + bool" where
  "Field_fits f v =
     (case (if \<not> signed f then dec_less v (Fin False 0 0) else Inr False) of
        Inl e \<Rightarrow> Inl e
      | Inr True \<Rightarrow> Inr False
      | Inr False \<Rightarrow>
          (case pow_ten (digits_left f) of
             Inl e \<Rightarrow> Inl e
           | Inr limit \<Rightarrow>
               (case dec_less (dec_neg limit) v of
                  Inl e \<Rightarrow> Inl e
                | Inr False \<Rightarrow> Inr False
                | Inr True \<Rightarrow> dec_less v limit)))"

text \<open>
  \<^verbatim>\<open>Field.set\<close>. The \<^verbatim>\<open>try\<close> block covers the conversion and the quantization and
  catches \<^verbatim>\<open>InvalidOperation\<close> and \<^verbatim>\<open>ValueError\<close> only; the fit check runs outside
  it. The result is the outcome (an exception or the returned boolean) and the field
  after the call.
\<close>

definition Field_set :: "Field \<Rightarrow> numberlike \<Rightarrow> bool \<Rightarrow> (error + bool) \<times> Field" where
  "Field_set f raw rounded =
     (case (case Decimal_of raw of Inl e \<Rightarrow> Inl e | Inr d \<Rightarrow> Field_quantize f d rounded) of
        Inl e \<Rightarrow> (if e = InvalidOperation \<or> e = ValueError then (Inr False, f) else (Inl e, f))
      | Inr v \<Rightarrow>
          (case Field_fits f v of
             Inl e \<Rightarrow> (Inl e, f)
           | Inr False \<Rightarrow> (Inr False, f)
           | Inr True \<Rightarrow> (Inr True, f\<lparr>value_f := v\<rparr>)))"

section \<open>The program state and the multiply engine\<close>

text \<open>
  Of \<^verbatim>\<open>NC101AProgram\<close> the engine reads and writes the two registries only. The
  registry holds one \<^verbatim>\<open>Field\<close> object per name, so a write through one name is seen
  through that name alone, as in a map from names to records.
\<close>

record NC101AProgram =
  fields_p :: "string \<rightharpoonup> Field"
  constants :: "string \<rightharpoonup> decimal"

definition add_field ::
  "NC101AProgram \<Rightarrow> string \<Rightarrow> nat \<Rightarrow> nat \<Rightarrow> bool \<Rightarrow> string \<Rightarrow> error + NC101AProgram" where
  "add_field p nm dl dr sg initial =
     (case Decimal_of_str initial of
        Inl e \<Rightarrow> Inl e
      | Inr d \<Rightarrow>
          Inr (p\<lparr>fields_p := (fields_p p)(nm \<mapsto>
                 \<lparr>name = nm, digits_left = dl, digits_right = dr, signed = sg, value_f = d\<rparr>)\<rparr>))"

text \<open>The field table of \<^verbatim>\<open>_init_fields\<close>, in the order of the source.\<close>

definition field_table :: "(string \<times> nat \<times> nat \<times> bool \<times> string) list" where
  "field_table =
     [(''MULT1'', 3, 2, False, ''80.12''),
      (''MULT4'', 2, 0, True, ''-56''),
      (''MULT5'', 1, 0, False, ''4''),
      (''MULT6'', 2, 0, False, ''20''),
      (''WRK_DS_18V00'', 18, 0, True, ''0''),
      (''WRK_DS_06V06'', 6, 6, True, ''0''),
      (''WRK_DS_10V00'', 10, 0, True, ''0''),
      (''WRK_DS_02V00'', 2, 0, True, ''0''),
      (''WRK_DS_0201P'', 4, 0, True, ''0''),
      (''WRK_DS_05V00'', 5, 0, True, ''0''),
      (''WRK_DS_01V00'', 1, 0, True, ''0''),
      (''WRK_CS_18V00'', 18, 0, True, ''0''),
      (''WRK_DU_18V00'', 18, 0, False, ''0''),
      (''WRK_DU_4P1_1'', 0, 5, False, ''0.00001''),
      (''WRK_DU_5V1_1'', 5, 1, False, ''12345.6''),
      (''WRK_DU_2P4_1'', 6, 0, False, ''990000''),
      (''WRK_DU_6V0_1'', 6, 0, False, ''99999''),
      (''WRK_DU_6V0_2'', 6, 0, False, ''99999''),
      (''WRK_DU_0V12_1'', 0, 12, False, ''0.00001''),
      (''WRK_DU_2V0_1'', 2, 0, False, ''99''),
      (''WRK_DU_2V0_2'', 2, 0, False, ''0'')]"

fun init_fields ::
  "NC101AProgram \<Rightarrow> (string \<times> nat \<times> nat \<times> bool \<times> string) list \<Rightarrow> error + NC101AProgram" where
  "init_fields p [] = Inr p"
| "init_fields p ((nm, dl, dr, sg, initial) # rest) =
     (case add_field p nm dl dr sg initial of
        Inl e \<Rightarrow> Inl e
      | Inr p' \<Rightarrow> init_fields p' rest)"

text \<open>The constants of \<^verbatim>\<open>_init_constants\<close>, each the decimal its literal denotes.\<close>

definition init_constants :: "string \<rightharpoonup> decimal" where
  "init_constants =
     [''A06THREES_DS_03V03'' \<mapsto> Fin False 333333 (- 3),
      ''A08TWOS_DS_02V06'' \<mapsto> Fin False 22222222 (- 6),
      ''A10ONES_DS_10V00'' \<mapsto> Fin False 1111111111 0,
      ''A12THREES_DS_06V06'' \<mapsto> Fin False 333333333333 (- 6),
      ''AZERO_DS_05V05'' \<mapsto> Fin False 0 0,
      ''A01ONE_CS_00V01'' \<mapsto> Fin False 1 (- 1),
      ''A18ONES_DS_18V00'' \<mapsto> Fin False 111111111111111111 0,
      ''A01ONE_DS_P0801'' \<mapsto> Fin False 1 (- 9)]"

definition init_program :: "error + NC101AProgram" where
  "init_program = init_fields \<lparr>fields_p = Map.empty, constants = init_constants\<rparr> field_table"

text \<open>
  \<^verbatim>\<open>_resolve_value\<close>: a decimal is returned as it is, an integer is converted, and a
  string is stripped and looked up among the fields, then among the constants, and only
  then read as a literal.
\<close>

definition resolve_value :: "NC101AProgram \<Rightarrow> numberlike \<Rightarrow> error + decimal" where
  "resolve_value p token =
     (case token of
        NDec d \<Rightarrow> Inr d
      | NInt i \<Rightarrow> Decimal_of (NInt i)
      | NStr s \<Rightarrow>
          let token_str = strip s
          in (case fields_p p token_str of
                Some f \<Rightarrow> Inr (value_f f)
              | None \<Rightarrow>
                  (case constants p token_str of
                     Some c \<Rightarrow> Inr c
                   | None \<Rightarrow> Decimal_of_str token_str)))"

text \<open>
  The dictionary comprehension that takes the snapshots: a dictionary keeps its keys in
  insertion order and a repeated key overwrites the value in place, which is
  \<open>AList.update\<close>. A missing name raises \<^verbatim>\<open>KeyError\<close>.
\<close>

fun snapshots ::
  "NC101AProgram \<Rightarrow> string list \<Rightarrow> (string \<times> decimal) list \<Rightarrow> error + (string \<times> decimal) list" where
  "snapshots p [] acc = Inr acc"
| "snapshots p (n # ns) acc =
     (case fields_p p n of
        None \<Rightarrow> Inl KeyError
      | Some f \<Rightarrow> snapshots p ns (AList.update n (clone_value f) acc))"

text \<open>The restore loop: \<^verbatim>\<open>self.fields[target].value = value\<close> for every snapshot.\<close>

fun restore :: "NC101AProgram \<Rightarrow> (string \<times> decimal) list \<Rightarrow> error option \<times> NC101AProgram" where
  "restore p [] = (None, p)"
| "restore p ((target, v) # rest) =
     (case fields_p p target of
        None \<Rightarrow> (Some KeyError, p)
      | Some f \<Rightarrow> restore (p\<lparr>fields_p := (fields_p p)(target \<mapsto> f\<lparr>value_f := v\<rparr>)\<rparr>) rest)"

text \<open>
  The receiver loop of \<^verbatim>\<open>_multiply\<close>. The result is the outcome (an exception, or the
  returned size-error flag) and the state the call leaves behind.
\<close>

fun multiply_loop ::
  "NC101AProgram \<Rightarrow> (string \<times> decimal) list \<Rightarrow> string list \<Rightarrow> decimal \<Rightarrow> string list
     \<Rightarrow> (error + bool) \<times> NC101AProgram" where
  "multiply_loop p snaps rounded product [] = (Inr False, p)"
| "multiply_loop p snaps rounded product (n # ns) =
     (case fields_p p n of
        None \<Rightarrow> (Inl KeyError, p)
      | Some field \<Rightarrow>
          (case Field_set field (NDec product) (n \<in> set rounded) of
             (Inl e, field') \<Rightarrow> (Inl e, p\<lparr>fields_p := (fields_p p)(n \<mapsto> field')\<rparr>)
           | (Inr False, field') \<Rightarrow>
               (case restore (p\<lparr>fields_p := (fields_p p)(n \<mapsto> field')\<rparr>) snaps of
                  (Some e, p') \<Rightarrow> (Inl e, p')
                | (None, p') \<Rightarrow> (Inr True, p'))
           | (Inr True, field') \<Rightarrow>
               multiply_loop (p\<lparr>fields_p := (fields_p p)(n \<mapsto> field')\<rparr>) snaps rounded product ns))"

text \<open>
  \<^verbatim>\<open>_multiply(multiplicand, multiplier, additional_receivers, rounded_receivers)\<close>,
  in the order of the source: resolve the multiplicand, look the multiplier up, copy its
  value, take the snapshots of all receivers, compute the product, run the loop.
\<close>

definition multiply ::
  "NC101AProgram \<Rightarrow> numberlike \<Rightarrow> string \<Rightarrow> string list \<Rightarrow> string list
     \<Rightarrow> (error + bool) \<times> NC101AProgram" where
  "multiply p multiplicand multiplier additional_receivers rounded_receivers =
     (case resolve_value p multiplicand of
        Inl e \<Rightarrow> (Inl e, p)
      | Inr multiplicand_value \<Rightarrow>
          (case fields_p p multiplier of
             None \<Rightarrow> (Inl KeyError, p)
           | Some multiplier_field \<Rightarrow>
               let multiplier_original = clone_value multiplier_field;
                   receiving_names = multiplier # additional_receivers
               in (case snapshots p receiving_names [] of
                     Inl e \<Rightarrow> (Inl e, p)
                   | Inr snaps \<Rightarrow>
                       (case dec_mul multiplicand_value multiplier_original of
                          Inl e \<Rightarrow> (Inl e, p)
                        | Inr product \<Rightarrow>
                            multiply_loop p snaps rounded_receivers product receiving_names))))"

text \<open>The state \<^verbatim>\<open>__init__\<close> leaves behind: the result of the initialisation.\<close>

definition initial :: NC101AProgram where
  "initial =
     (case init_program of
        Inr p \<Rightarrow> p
      | Inl e \<Rightarrow> \<lparr>fields_p = Map.empty, constants = init_constants\<rparr>)"

section \<open>Notions used to state the properties\<close>

text \<open>
  Quantisation as the specification words it, on the mathematical value: truncation
  discards the excess fractional digits toward zero, round-half-up adds one unit in the
  last retained place to the magnitude when the discarded remainder is at least half of it.
\<close>

definition trunc_to :: "nat \<Rightarrow> rat \<Rightarrow> rat" where
  "trunc_to dr x = sgn x * of_int \<lfloor>\<bar>x\<bar> * 10 ^ dr\<rfloor> / 10 ^ dr"

definition half_up_to :: "nat \<Rightarrow> rat \<Rightarrow> rat" where
  "half_up_to dr x = sgn x * of_int \<lfloor>\<bar>x\<bar> * 10 ^ dr + 1 / 2\<rfloor> / 10 ^ dr"

definition quantized_value :: "bool \<Rightarrow> nat \<Rightarrow> rat \<Rightarrow> rat" where
  "quantized_value rounded dr x = (if rounded then half_up_to dr x else trunc_to dr x)"

text \<open>The width and sign constraint of a field, on the mathematical value.\<close>

definition fits_value :: "Field \<Rightarrow> rat \<Rightarrow> bool" where
  "fits_value f x = ((signed f \<or> 0 \<le> x) \<and> - (10 ^ digits_left f) < x \<and> x < 10 ^ digits_left f)"

text \<open>
  Two readings of a decimal quantized to \<open>dr\<close> fractional digits. The literal one: the
  decimal is finite and written with exactly \<open>dr\<close> fractional digits, that is, its
  exponent is \<open>- dr\<close>. The numeric one, which is weaker: the decimal is finite and
  its value is a whole number of units of the \<open>dr\<close>-th fractional place, however
  many fractional digits it is written with.
\<close>

definition exactly_quantized :: "nat \<Rightarrow> decimal \<Rightarrow> bool" where
  "exactly_quantized dr d =
     (case d of
        Fin s c e \<Rightarrow> e = - int dr
      | Inf s \<Rightarrow> False
      | NaN g \<Rightarrow> False)"

definition multiple_of_unit :: "nat \<Rightarrow> decimal \<Rightarrow> bool" where
  "multiple_of_unit dr d =
     (case d of
        Fin s c e \<Rightarrow> - int dr \<le> e \<or> 10 ^ nat (- int dr - e) dvd c
      | Inf s \<Rightarrow> False
      | NaN g \<Rightarrow> False)"

text \<open>
  The invariant of a field in its literal form, \<open>field_inv_exact\<close>, and in its
  numeric form, \<open>field_inv\<close>; both ask for the width and sign constraint.
\<close>

definition field_inv_exact :: "Field \<Rightarrow> bool" where
  "field_inv_exact f =
     (exactly_quantized (digits_right f) (value_f f) \<and> fits_value f (dval (value_f f)))"

definition field_inv :: "Field \<Rightarrow> bool" where
  "field_inv f = (multiple_of_unit (digits_right f) (value_f f) \<and> fits_value f (dval (value_f f)))"

definition registry_inv :: "NC101AProgram \<Rightarrow> bool" where
  "registry_inv p = (\<forall>n f. fields_p p n = Some f \<longrightarrow> field_inv f)"

text \<open>
  The digit counts for which the context can represent the unit \<open>1E-digits_right\<close> and
  the limit \<open>10 ** digits_left\<close>.
\<close>

definition widths_in_range :: "Field \<Rightarrow> bool" where
  "widths_in_range f = (int (digits_left f) \<le> Emax \<and> Etiny \<le> - int (digits_right f))"

text \<open>
  The states a run can reach from the initial one by calls of \<^verbatim>\<open>set\<close> on a
  registered field and by calls of \<^verbatim>\<open>_multiply\<close>, whatever their outcome.
\<close>

inductive reachable :: "NC101AProgram \<Rightarrow> bool" where
  reach_init: "reachable initial"
| reach_set:
    "reachable p \<Longrightarrow> fields_p p n = Some f \<Longrightarrow> Field_set f raw rounded = (out, f') \<Longrightarrow>
     reachable (p\<lparr>fields_p := (fields_p p)(n \<mapsto> f')\<rparr>)"
| reach_multiply:
    "reachable p \<Longrightarrow> multiply p multiplicand multiplier additional rounded = (out, p') \<Longrightarrow>
     reachable p'"

text \<open>
  Two states that agree except for the stored values of the fields named in \<open>ks\<close>, and
  a snapshot list that holds values of the state \<open>p\<close>.
\<close>

definition differs_only_in :: "NC101AProgram \<Rightarrow> NC101AProgram \<Rightarrow> string set \<Rightarrow> bool" where
  "differs_only_in q p ks =
     (constants q = constants p \<and>
      (\<forall>n. (n \<notin> ks \<longrightarrow> fields_p q n = fields_p p n) \<and>
           (n \<in> ks \<longrightarrow>
              rel_option (\<lambda>g f. g\<lparr>value_f := value_f f\<rparr> = f) (fields_p q n) (fields_p p n))))"

definition snaps_of :: "NC101AProgram \<Rightarrow> (string \<times> decimal) list \<Rightarrow> bool" where
  "snaps_of p snaps = (\<forall>(k, v) \<in> set snaps. \<exists>f. fields_p p k = Some f \<and> value_f f = v)"

text \<open>What a receiver holds after a successful store of \<open>product\<close>.\<close>

definition receives :: "Field \<Rightarrow> decimal \<Rightarrow> bool \<Rightarrow> Field \<Rightarrow> bool" where
  "receives g product rounded g' =
     (\<exists>v. Field_quantize g product rounded = Inr v \<and> Field_fits g v = Inr True \<and>
          g' = g\<lparr>value_f := v\<rparr>)"

text \<open>
  The coefficient that is kept when \<open>k\<close> digits of \<open>c\<close> are discarded, by truncation
  or by rounding half up.
\<close>

definition qcoef :: "bool \<Rightarrow> nat \<Rightarrow> nat \<Rightarrow> nat" where
  "qcoef r c k = c div 10 ^ k + (if r \<and> 10 ^ k \<le> 2 * (c mod 10 ^ k) then 1 else 0)"

text \<open>
  Two finite decimals whose exact product the context returns unrounded: the product of
  the coefficients has at most \<open>prec\<close> digits and the sum of the exponents is not below
  \<open>Etiny\<close>.
\<close>

definition exact_product_fits :: "decimal \<Rightarrow> decimal \<Rightarrow> bool" where
  "exact_product_fits a b =
     (case a of
        Fin s c e \<Rightarrow>
          (case b of
             Fin t c' e' \<Rightarrow> int (ndigits (c * c')) \<le> prec \<and> Etiny \<le> e + e'
           | Inf t \<Rightarrow> False
           | NaN g \<Rightarrow> False)
      | Inf s \<Rightarrow> False
      | NaN g \<Rightarrow> False)"

section \<open>Evaluation\<close>

lemmas parse_defs = Decimal_of_str_def parse_number_def parse_exponent_def parse_sign_def
  strip_def is_space_def is_digit_def lower_def nat_of_digits_def exact_ok_def adjusted_def

lemmas ctx_defs = prec_def Emax_def Emin_def Etiny_def Etop_def

lemmas arith_defs = dec_mul_def dec_fix_def quantize_def rescale_def round_coeff_def
  scaleb_one_def dec_less_def pow_ten_def pow10_def adjusted_def

lemmas field_defs = Field_set_def Field_quantize_def Field_fits_def Decimal_of_def
  clone_value_def

lemmas init_defs = initial_def init_program_def field_table_def add_field_def

lemma init_program_ok: "init_program = Inr initial"
  by (simp add: init_defs parse_defs ndigits.simps)

lemma init_constants_literals:
  "map_option Inr (init_constants ''A06THREES_DS_03V03'') = Some (Decimal_of_str ''333.333'')"
  "map_option Inr (init_constants ''A08TWOS_DS_02V06'') = Some (Decimal_of_str ''22.222222'')"
  "map_option Inr (init_constants ''A10ONES_DS_10V00'') = Some (Decimal_of_str ''1111111111'')"
  "map_option Inr (init_constants ''A12THREES_DS_06V06'') = Some (Decimal_of_str ''333333.333333'')"
  "map_option Inr (init_constants ''AZERO_DS_05V05'') = Some (Decimal_of_str ''0'')"
  "map_option Inr (init_constants ''A01ONE_CS_00V01'') = Some (Decimal_of_str ''0.1'')"
  "map_option Inr (init_constants ''A18ONES_DS_18V00'') = Some (Decimal_of_str ''111111111111111111'')"
  "map_option Inr (init_constants ''A01ONE_DS_P0801'') = Some (Decimal_of_str ''0.000000001'')"
  by (simp_all add: init_constants_def parse_defs ndigits.simps)

lemma initial_constants: "constants initial = init_constants"
  by (simp add: init_defs parse_defs ndigits.simps)

lemma initial_MULT5:
  "fields_p initial ''MULT5'' =
     Some \<lparr>name = ''MULT5'', digits_left = 1, digits_right = 0, signed = False,
           value_f = Fin False 4 0\<rparr>"
  by (simp add: init_defs parse_defs ndigits.simps)

lemma initial_MULT6:
  "fields_p initial ''MULT6'' =
     Some \<lparr>name = ''MULT6'', digits_left = 2, digits_right = 0, signed = False,
           value_f = Fin False 20 0\<rparr>"
  by (simp add: init_defs parse_defs ndigits.simps)

lemma initial_WRK_DU_4P1_1:
  "fields_p initial ''WRK_DU_4P1_1'' =
     Some \<lparr>name = ''WRK_DU_4P1_1'', digits_left = 0, digits_right = 5, signed = False,
           value_f = Fin False 1 (- 5)\<rparr>"
  by (simp add: init_defs parse_defs ndigits.simps)

lemma initial_WRK_DU_5V1_1:
  "fields_p initial ''WRK_DU_5V1_1'' =
     Some \<lparr>name = ''WRK_DU_5V1_1'', digits_left = 5, digits_right = 1, signed = False,
           value_f = Fin False 123456 (- 1)\<rparr>"
  by (simp add: init_defs parse_defs ndigits.simps)

lemma initial_WRK_DU_6V0_2:
  "fields_p initial ''WRK_DU_6V0_2'' =
     Some \<lparr>name = ''WRK_DU_6V0_2'', digits_left = 6, digits_right = 0, signed = False,
           value_f = Fin False 99999 0\<rparr>"
  by (simp add: init_defs parse_defs ndigits.simps)

lemma initial_BOGUS: "fields_p initial ''BOGUS'' = None"
  by (simp add: init_defs parse_defs ndigits.simps)

lemma mult55_outcome: "\<exists>q. multiply initial (NStr ''MULT5'') ''MULT5'' [] [] = (Inr True, q)"
  by (simp add: multiply_def resolve_value_def strip_def is_space_def initial_MULT5
      field_defs arith_defs ctx_defs ndigits.simps)

section \<open>The store into one field\<close>

lemma Field_set_cases:
  assumes "Field_set f raw r = (out, f')"
  shows "(out = Inr True \<and> (\<exists>d v. Decimal_of raw = Inr d \<and> Field_quantize f d r = Inr v \<and>
             Field_fits f v = Inr True \<and> f' = f\<lparr>value_f := v\<rparr>)) \<or>
         (out \<noteq> Inr True \<and> f' = f)"
  using assms unfolding Field_set_def
  by (auto split: sum.splits if_splits bool.splits)

lemma Field_set_receives:
  "Field_set f (NDec product) r = (Inr True, f') \<Longrightarrow> receives f product r f'"
  by (drule Field_set_cases) (auto simp: receives_def Decimal_of_def)

section \<open>Snapshots and rollback\<close>

lemma set_AList_update: "set (AList.update k v al) \<subseteq> insert (k, v) (set al)"
  by (induction al) auto

lemma snapshots_sound:
  "snapshots p ns acc = Inr snaps \<Longrightarrow> snaps_of p acc \<Longrightarrow> snaps_of p snaps"
proof (induction ns arbitrary: acc)
  case Nil
  then show ?case by simp
next
  case (Cons n ns)
  from Cons.prems(1) obtain f where f: "fields_p p n = Some f"
    and rec: "snapshots p ns (AList.update n (clone_value f) acc) = Inr snaps"
    by (auto split: option.splits)
  have "snaps_of p (AList.update n (clone_value f) acc)"
    using Cons.prems(2) f set_AList_update [of n "clone_value f" acc]
    unfolding snaps_of_def clone_value_def by auto
  with Cons.IH rec show ?case by blast
qed

lemma snapshots_keys:
  "snapshots p ns acc = Inr snaps \<Longrightarrow> set ns \<union> fst ` set acc \<subseteq> fst ` set snaps"
proof (induction ns arbitrary: acc)
  case Nil
  then show ?case by simp
next
  case (Cons n ns)
  from Cons.prems obtain f where f: "fields_p p n = Some f"
    and rec: "snapshots p ns (AList.update n (clone_value f) acc) = Inr snaps"
    by (auto split: option.splits)
  from Cons.IH [OF rec] show ?case
    by (simp add: dom_update)
qed

lemma differs_only_in_refl: "differs_only_in p p ks"
  unfolding differs_only_in_def by (auto simp: option.rel_refl)

lemma differs_only_in_empty: "differs_only_in q p {} \<Longrightarrow> q = p"
  unfolding differs_only_in_def by (cases q, cases p) auto

lemma differs_only_in_update:
  assumes "differs_only_in q p K" and "n \<in> K" and "fields_p q n = Some g"
  shows "differs_only_in (q\<lparr>fields_p := (fields_p q)(n \<mapsto> g\<lparr>value_f := v\<rparr>)\<rparr>) p K"
proof -
  from assms obtain f where f: "fields_p p n = Some f" "g\<lparr>value_f := value_f f\<rparr> = f"
    unfolding differs_only_in_def by (auto simp: option_rel_Some1 dest!: spec [of _ n])
  have "rel_option (\<lambda>g f. g\<lparr>value_f := value_f f\<rparr> = f) (Some (g\<lparr>value_f := v\<rparr>)) (fields_p p n)"
    using f by simp
  with assms(1,2) show ?thesis
    unfolding differs_only_in_def by simp
qed

lemma restore_back:
  "differs_only_in q p ks \<Longrightarrow> snaps_of p snaps \<Longrightarrow>
   \<exists>q'. restore q snaps = (None, q') \<and> differs_only_in q' p (ks - fst ` set snaps)"
proof (induction snaps arbitrary: q ks)
  case Nil
  then show ?case by simp
next
  case (Cons kv snaps)
  obtain k v where kv: "kv = (k, v)" by (cases kv)
  from Cons.prems(2) kv obtain f where f: "fields_p p k = Some f" "value_f f = v"
    and rest: "snaps_of p snaps"
    unfolding snaps_of_def by auto
  from Cons.prems(1) f obtain g where g: "fields_p q k = Some g" "g\<lparr>value_f := v\<rparr> = f"
    unfolding differs_only_in_def
    by (cases "k \<in> ks") (auto simp: option_rel_Some2 dest!: spec [of _ k])
  let ?q1 = "q\<lparr>fields_p := (fields_p q)(k \<mapsto> g\<lparr>value_f := v\<rparr>)\<rparr>"
  have "differs_only_in ?q1 p (ks - {k})"
    using Cons.prems(1) f g unfolding differs_only_in_def by auto
  from Cons.IH [OF this rest] obtain q' where
    "restore ?q1 snaps = (None, q')" "differs_only_in q' p (ks - {k} - fst ` set snaps)"
    by blast
  moreover have "ks - {k} - fst ` set snaps = ks - fst ` set (kv # snaps)"
    using kv by auto
  ultimately show ?case using kv g by simp
qed

lemma restore_all:
  assumes "differs_only_in q p (fst ` set snaps)" and "snaps_of p snaps"
  shows "restore q snaps = (None, p)"
proof -
  from restore_back [OF assms] obtain q' where
    r: "restore q snaps = (None, q')" and d: "differs_only_in q' p (fst ` set snaps - fst ` set snaps)"
    by blast
  from d have "q' = p" by (simp add: differs_only_in_empty)
  with r show ?thesis by simp
qed

section \<open>The receiver loop\<close>

lemma multiply_loop_size_error:
  "multiply_loop q snaps rounded product ns = (Inr True, q') \<Longrightarrow>
   differs_only_in q p (fst ` set snaps) \<Longrightarrow> snaps_of p snaps \<Longrightarrow>
   set ns \<subseteq> fst ` set snaps \<Longrightarrow> q' = p"
proof (induction ns arbitrary: q)
  case Nil
  then show ?case by simp
next
  case (Cons n ns)
  from Cons.prems(1) obtain field where field: "fields_p q n = Some field"
    by (auto split: option.splits)
  obtain out field' where fs: "Field_set field (NDec product) (n \<in> set rounded) = (out, field')"
    by (cases "Field_set field (NDec product) (n \<in> set rounded)")
  from Field_set_cases [OF fs] show ?case
  proof
    assume ok: "out = Inr True \<and> (\<exists>d v. Decimal_of (NDec product) = Inr d \<and>
       Field_quantize field d (n \<in> set rounded) = Inr v \<and>
       Field_fits field v = Inr True \<and> field' = field\<lparr>value_f := v\<rparr>)"
    let ?q1 = "q\<lparr>fields_p := (fields_p q)(n \<mapsto> field')\<rparr>"
    from ok Cons.prems(1) field fs
    have rec: "multiply_loop ?q1 snaps rounded product ns = (Inr True, q')"
      by simp
    have nk: "n \<in> fst ` set snaps" using Cons.prems(4) by simp
    have "differs_only_in ?q1 p (fst ` set snaps)"
      using differs_only_in_update [OF Cons.prems(2) nk field] ok by auto
    from Cons.IH [OF rec this Cons.prems(3)] Cons.prems(4) show ?thesis by simp
  next
    assume bad: "out \<noteq> Inr True \<and> field' = field"
    then have same: "q\<lparr>fields_p := (fields_p q)(n \<mapsto> field')\<rparr> = q"
      using field by (simp add: fun_upd_idem)
    have "restore q snaps = (None, p)"
      using restore_all [OF Cons.prems(2) Cons.prems(3)] .
    with Cons.prems(1) field fs bad same show ?thesis
      by (cases out) (auto split: bool.splits)
  qed
qed

lemma multiply_unfold:
  assumes "multiply p m mu add rs = (Inr b, p')"
  shows "\<exists>mv mf snaps product.
           resolve_value p m = Inr mv \<and> fields_p p mu = Some mf \<and>
           snapshots p (mu # add) [] = Inr snaps \<and>
           dec_mul mv (value_f mf) = Inr product \<and>
           multiply_loop p snaps rs product (mu # add) = (Inr b, p')"
  using assms unfolding multiply_def clone_value_def
  by (auto simp: Let_def split: sum.splits option.splits)

lemma multiply_size_error_state:
  assumes "multiply p m mu add rs = (Inr True, p')"
  shows "p' = p"
proof -
  from multiply_unfold [OF assms] obtain mv mf snaps product where
    sn: "snapshots p (mu # add) [] = Inr snaps"
    and lp: "multiply_loop p snaps rs product (mu # add) = (Inr True, p')"
    by blast
  have s1: "snaps_of p snaps"
    using snapshots_sound [OF sn] by (simp add: snaps_of_def)
  have s2: "set (mu # add) \<subseteq> fst ` set snaps"
    using snapshots_keys [OF sn] by simp
  from multiply_loop_size_error [OF lp differs_only_in_refl s1 s2] show ?thesis .
qed

lemma mult55: "multiply initial (NStr ''MULT5'') ''MULT5'' [] [] = (Inr True, initial)"
  using mult55_outcome multiply_size_error_state by metis

section \<open>Claims about the multiply engine\<close>

text \<open>
  Claim C1. Whenever \<^verbatim>\<open>_multiply\<close> returns \<^verbatim>\<open>True\<close> (size error), every receiver,
  the multiplier field included, holds the field it held before the call, no other field
  has changed, and so the whole state is the state before the call.
\<close>

theorem size_error_restores_every_field:
  assumes "multiply p multiplicand multiplier additional rounded = (Inr True, p')"
  shows "(\<forall>n \<in> set (multiplier # additional). \<exists>f. fields_p p n = Some f \<and> fields_p p' n = Some f) \<and>
         (\<forall>n. n \<notin> set (multiplier # additional) \<longrightarrow> fields_p p' n = fields_p p n) \<and>
         p' = p"
proof -
  have same: "p' = p" using multiply_size_error_state [OF assms] .
  from multiply_unfold [OF assms] obtain snaps where
    sn: "snapshots p (multiplier # additional) [] = Inr snaps" by blast
  have "snaps_of p snaps"
    using snapshots_sound [OF sn] by (simp add: snaps_of_def)
  moreover have "set (multiplier # additional) \<subseteq> fst ` set snaps"
    using snapshots_keys [OF sn] by simp
  ultimately have "\<forall>n \<in> set (multiplier # additional). \<exists>f. fields_p p n = Some f"
    unfolding snaps_of_def by fastforce
  with same show ?thesis by simp
qed

theorem size_error_restores_every_field_witness:
  "multiply initial (NStr ''MULT5'') ''MULT5'' [] [] = (Inr True, initial) \<and>
   snd (multiply initial (NStr ''MULT5'') ''MULT5'' [] []) = initial \<and>
   fields_p initial ''MULT5'' =
     Some \<lparr>name = ''MULT5'', digits_left = 1, digits_right = 0, signed = False,
           value_f = Fin False 4 0\<rparr>"
  using size_error_restores_every_field [OF mult55] mult55 initial_MULT5 by simp

text \<open>
  Claim C9. A call of \<^verbatim>\<open>_multiply\<close> that returned a size error left the state as it
  was, and the same call made again from that state returns a size error again and
  leaves the same state: the engine keeps no state of its own between calls.
\<close>

theorem failed_multiply_is_idempotent:
  assumes "multiply p multiplicand multiplier additional rounded = (Inr True, p')"
  shows "p' = p \<and> multiply p' multiplicand multiplier additional rounded = (Inr True, p')"
  using assms multiply_size_error_state [OF assms] by simp

theorem failed_multiply_is_idempotent_witness:
  "multiply initial (NStr ''MULT5'') ''MULT5'' [] [] = (Inr True, initial) \<and>
   multiply (snd (multiply initial (NStr ''MULT5'') ''MULT5'' [] [])) (NStr ''MULT5'') ''MULT5'' [] []
     = (Inr True, initial)"
  using failed_multiply_is_idempotent [OF mult55] mult55 by simp

text \<open>
  Claim C7. When the multiplicand is a string that, stripped, names no field and no
  constant and is not a decimal literal, or when the multiplier names no field, the call
  raises an exception and leaves the state untouched; it does not return the size-error
  flag.
\<close>

lemma Decimal_of_str_BOGUS: "Decimal_of_str ''BOGUS'' = Inl InvalidOperation"
  by (simp add: parse_defs ndigits.simps)

theorem resolution_failure_raises:
  assumes "(\<exists>s. multiplicand = NStr s \<and> fields_p p (strip s) = None \<and>
                constants p (strip s) = None \<and> Decimal_of_str (strip s) = Inl e0) \<or>
           fields_p p multiplier = None"
  shows "(\<exists>e. multiply p multiplicand multiplier additional rounded = (Inl e, p)) \<and>
         fst (multiply p multiplicand multiplier additional rounded) \<noteq> Inr True"
  using assms unfolding multiply_def resolve_value_def
  by (auto simp: Let_def split: sum.splits option.splits numberlike.splits)

theorem resolution_failure_raises_witness:
  "fields_p initial (strip ''BOGUS'') = None \<and> constants initial (strip ''BOGUS'') = None \<and>
   Decimal_of_str (strip ''BOGUS'') = Inl InvalidOperation \<and>
   multiply initial (NStr ''BOGUS'') ''MULT5'' [] [] = (Inl InvalidOperation, initial)"
proof -
  have s: "strip ''BOGUS'' = ''BOGUS''" by (simp add: strip_def is_space_def)
  have c: "constants initial ''BOGUS'' = None"
    by (simp add: initial_constants init_constants_def)
  have h: "(\<exists>s. NStr ''BOGUS'' = NStr s \<and> fields_p initial (strip s) = None \<and>
                constants initial (strip s) = None \<and> Decimal_of_str (strip s) = Inl InvalidOperation) \<or>
           fields_p initial ''MULT5'' = None"
    using s c initial_BOGUS Decimal_of_str_BOGUS by simp
  have "resolve_value initial (NStr ''BOGUS'') = Inl InvalidOperation"
    using s c initial_BOGUS Decimal_of_str_BOGUS by (simp add: resolve_value_def)
  then have "\<And>e. multiply initial (NStr ''BOGUS'') ''MULT5'' [] [] = (Inl e, initial) \<Longrightarrow> e = InvalidOperation"
    by (simp add: multiply_def)
  with resolution_failure_raises [OF h, of "[]" "[]"] s c initial_BOGUS Decimal_of_str_BOGUS
  show ?thesis by auto
qed

section \<open>Facts about the decimal arithmetic\<close>

lemma pow10_powi: "pow10 e = 10 powi e"
  by (simp add: pow10_def power_int_def field_simps)

lemma pow10_pos [simp]: "0 < pow10 e"
  by (simp add: pow10_def)

lemma pow10_add: "pow10 (a + b) = pow10 a * pow10 b"
  by (simp add: pow10_powi power_int_add)

lemma pow10_of_nat [simp]: "pow10 (int n) = 10 ^ n"
  by (simp add: pow10_def)

lemma pow10_neg_nat: "pow10 (- int n) = 1 / 10 ^ n"
  by (simp add: pow10_powi power_int_minus field_simps)

lemma ndigits_pos [simp]: "0 < ndigits n"
  by (subst ndigits.simps) simp

lemma ndigits_upper: "n < 10 ^ ndigits n"
proof (induction n rule: ndigits.induct)
  case (1 n)
  show ?case
  proof (cases "n < 10")
    case True
    then show ?thesis by (subst ndigits.simps) simp
  next
    case False
    with 1 have "n div 10 < 10 ^ ndigits (n div 10)" by simp
    then have "n < 10 * 10 ^ ndigits (n div 10)" by linarith
    with False show ?thesis by (subst ndigits.simps) simp
  qed
qed

lemma ndigits_lower: "0 < n \<Longrightarrow> 10 ^ (ndigits n - 1) \<le> n"
proof (induction n rule: ndigits.induct)
  case (1 n)
  show ?case
  proof (cases "n < 10")
    case True
    with 1(2) show ?thesis by (subst ndigits.simps) simp
  next
    case False
    then have "0 < n div 10" by simp
    with 1(1) False have "10 ^ (ndigits (n div 10) - 1) \<le> n div 10" by simp
    then have le: "10 * 10 ^ (ndigits (n div 10) - 1) \<le> n" by linarith
    obtain k where k: "ndigits (n div 10) = Suc k"
      using ndigits_pos [of "n div 10"] gr0_implies_Suc by blast
    have "ndigits n = Suc (Suc k)"
      using False k by (subst ndigits.simps) simp
    with le k show ?thesis by simp
  qed
qed

lemma ndigits_le: "n < 10 ^ k \<Longrightarrow> 0 < k \<Longrightarrow> ndigits n \<le> k"
proof (rule ccontr)
  assume a: "n < 10 ^ k" "0 < k" "\<not> ndigits n \<le> k"
  then have n0: "0 < n"
    by (metis One_nat_def gr0I less_one ndigits.simps not_less zero_less_numeral Suc_leI)
  from a have "k \<le> ndigits n - 1" by simp
  then have "(10::nat) ^ k \<le> 10 ^ (ndigits n - 1)" by (simp add: power_increasing)
  with ndigits_lower [OF n0] a(1) show False by linarith
qed

lemma dec_fix_id:
  assumes "Etiny \<le> e" and "int (ndigits c) \<le> prec" and "adjusted c e \<le> Emax"
  shows "dec_fix (Fin s c e) = Inr (Fin s c e)"
  using assms unfolding dec_fix_def adjusted_def ctx_defs
  by (auto simp: Let_def ndigits.simps [of 0])

lemma dec_fix_exponent:
  "dec_fix (Fin s c e) = Inr d \<Longrightarrow> \<exists>s' c' e'. d = Fin s' c' e' \<and> Etiny \<le> e'"
  unfolding dec_fix_def ctx_defs
  by (auto simp: Let_def split: if_splits)

lemma ndigits_0 [simp]: "ndigits 0 = 1"
  by (simp add: ndigits.simps)

lemma ndigits_1 [simp]: "ndigits (Suc 0) = 1"
  by (simp add: ndigits.simps)

lemma round_coeff_one: "round_coeff ROUND_HALF_EVEN (Suc 0) (Suc 0) = 0"
  by (simp add: round_coeff_def)

lemma dec_fix_one:
  assumes "n \<le> 0"
  shows "dec_fix (Fin False (Suc 0) n) =
           Inr (if Etiny \<le> n then Fin False (Suc 0) n else Fin False 0 Etiny)"
proof (cases "Etiny \<le> n")
  case True
  with assms show ?thesis
    unfolding dec_fix_def ctx_defs by (simp add: Let_def)
next
  case False
  show ?thesis
  proof (cases "n = Etiny - 1")
    case True
    then have "nat (Etiny - n) = Suc 0" by simp
    with True False assms show ?thesis
      unfolding dec_fix_def by (simp add: Let_def round_coeff_one) (simp add: ctx_defs)
  next
    case ne: False
    with False assms show ?thesis
      unfolding dec_fix_def ctx_defs by (simp add: Let_def)
  qed
qed

lemma scaleb_one_exponent:
  "scaleb_one (- int dr) = Inr ex \<Longrightarrow>
   \<exists>xc. ex = Fin False xc (max (- int dr) Etiny)"
  unfolding scaleb_one_def
  by (auto simp: dec_fix_one [of "- int dr"] max_def split: if_splits)

lemma scaleb_one_error: "scaleb_one (- int dr) = Inl e \<Longrightarrow> e = InvalidOperation"
  unfolding scaleb_one_def
  by (auto simp: dec_fix_one [of "- int dr"] split: if_splits)

lemma scaleb_one_in_range:
  "Etiny \<le> - int dr \<Longrightarrow> scaleb_one (- int dr) = Inr (Fin False 1 (- int dr))"
  unfolding scaleb_one_def
  by (auto simp: dec_fix_one [of "- int dr"]) (simp_all add: ctx_defs)

lemma rescale_form: "\<exists>c'. rescale s c e xe m = Fin s c' xe"
  by (simp add: rescale_def)

lemma quantize_finite:
  assumes "quantize (Fin s c e) (Fin xs xc xe) m = Inr q"
  shows "q = rescale s c e xe m \<and> Etiny \<le> xe \<and> xe \<le> Emax"
proof -
  from assms have rng: "Etiny \<le> xe" "xe \<le> Emax"
    unfolding quantize_def by (auto split: if_splits)
  show ?thesis
  proof (cases "c = 0")
    case True
    have "dec_fix (Fin s 0 xe) = Inr (Fin s 0 xe)"
      using rng unfolding dec_fix_def by auto
    with assms True rng show ?thesis
      unfolding quantize_def rescale_def by auto
  next
    case False
    obtain s' c' e' where r: "rescale s c e xe m = Fin s' c' e'" and e': "e' = xe"
      using rescale_form by blast
    from assms False r rng have chk: "adjusted c' e' \<le> Emax" "int (ndigits c') \<le> prec"
      and res: "dec_fix (Fin s' c' e') = Inr q"
      unfolding quantize_def by (auto split: if_splits)
    from dec_fix_id [of e' c' s'] chk rng e' res r show ?thesis by simp
  qed
qed

lemma quantize_error:
  "quantize d (Fin xs xc xe) m = Inl err \<Longrightarrow> err = InvalidOperation"
proof (cases d)
  case (Fin s c e)
  assume a: "quantize d (Fin xs xc xe) m = Inl err"
  show ?thesis
  proof (rule ccontr)
    assume ne: "err \<noteq> InvalidOperation"
    with a Fin have rng: "Etiny \<le> xe" "xe \<le> Emax"
      unfolding quantize_def by (auto split: if_splits)
    have z: "dec_fix (Fin s 0 xe) = Inr (Fin s 0 xe)"
      using rng unfolding dec_fix_def by auto
    obtain s' c' e' where r: "rescale s c e xe m = Fin s' c' e'" and e': "e' = xe"
      using rescale_form by blast
    from a Fin ne z r have "c \<noteq> 0 \<and> adjusted c' e' \<le> Emax \<and> int (ndigits c') \<le> prec \<and>
        dec_fix (Fin s' c' e') = Inl err"
      unfolding quantize_def by (auto split: if_splits)
    with dec_fix_id [of e' c' s'] rng e' show False by simp
  qed
qed (auto simp: quantize_def split: if_splits)

lemma Field_quantize_error: "Field_quantize f x r = Inl err \<Longrightarrow> err = InvalidOperation"
  unfolding Field_quantize_def
  by (auto split: sum.splits dest: scaleb_one_error quantize_error scaleb_one_exponent)

lemma Field_quantize_finite:
  assumes "Field_quantize f (Fin s c e) r = Inr q"
  shows "\<exists>xe. xe = max (- int (digits_right f)) Etiny \<and> xe \<le> 0 \<and>
           q = rescale s c e xe (if r then ROUND_HALF_UP else ROUND_DOWN)"
proof -
  from assms obtain ex where ex: "scaleb_one (- int (digits_right f)) = Inr ex"
    and q: "quantize (Fin s c e) ex (if r then ROUND_HALF_UP else ROUND_DOWN) = Inr q"
    unfolding Field_quantize_def by (auto split: sum.splits)
  from scaleb_one_exponent [OF ex] obtain xc where
    "ex = Fin False xc (max (- int (digits_right f)) Etiny)" by blast
  with quantize_finite q show ?thesis
    by (auto simp: Etiny_def Emin_def prec_def)
qed

lemma Field_quantize_is_finite:
  assumes "Field_quantize f x r = Inr q"
  shows "is_finite q = is_finite x"
proof (cases x)
  case (Fin s c e)
  with Field_quantize_finite assms rescale_form [of s c e] show ?thesis
    by (metis is_finite.simps(1))
next
  case (Inf s)
  with assms show ?thesis
    unfolding Field_quantize_def
    by (auto simp: quantize_def split: sum.splits dest!: scaleb_one_exponent)
next
  case (NaN g)
  with assms show ?thesis
    unfolding Field_quantize_def
    by (auto simp: quantize_def split: sum.splits if_splits dest!: scaleb_one_exponent)
qed

lemma dval_zero [simp]: "dval (Fin False 0 0) = 0"
  by simp

lemma Field_fits_finite:
  assumes "int (digits_left f) \<le> Emax"
  shows "Field_fits f (Fin s c e) = Inr (fits_value f (dval (Fin s c e)))"
proof -
  have lim: "dval (Fin False 1 (int (digits_left f))) = 10 ^ digits_left f"
    "dval (Fin True 1 (int (digits_left f))) = - (10 ^ digits_left f)"
    by simp_all
  show ?thesis
    using assms unfolding Field_fits_def fits_value_def dec_less_def pow_ten_def
    by (simp only: lim dval_zero dec_neg.simps decimal.case prod.case sum.case simp_thms
        bool.case if_True if_False not_less split: if_splits bool.splits)
      (auto simp: not_less not_le)
qed

lemma Field_fits_True:
  assumes "Field_fits f v = Inr True"
  shows "is_finite v \<and> fits_value f (dval v) \<and> int (digits_left f) \<le> Emax"
proof -
  from assms have d: "int (digits_left f) \<le> Emax"
    unfolding Field_fits_def pow_ten_def by (auto split: sum.splits bool.splits if_splits)
  from assms d have fin: "is_finite v"
    unfolding Field_fits_def pow_ten_def dec_less_def
    by (cases v) (auto split: sum.splits bool.splits if_splits)
  then obtain s c e where "v = Fin s c e" by (cases v) auto
  with assms Field_fits_finite [OF d, of s c e] fin d show ?thesis by simp
qed

section \<open>Quantisation and the mathematical value\<close>


lemma half_up_div:
  fixes c P :: nat
  assumes "0 < P"
  shows "(2 * c + P) div (2 * P) = c div P + (if P \<le> 2 * (c mod P) then 1 else 0)"
proof -
  define q where "q = c div P"
  define t where "t = c mod P"
  have c: "c = q * P + t" and t: "t < P"
    using assms by (simp_all add: q_def t_def)
  have "2 * c + P = q * (2 * P) + (2 * t + P)"
    using c by (simp add: algebra_simps)
  moreover have "(q * (2 * P) + (2 * t + P)) div (2 * P) = q + (2 * t + P) div (2 * P)"
    using assms by (intro div_mult_self3) simp
  ultimately have "(2 * c + P) div (2 * P) = q + (2 * t + P) div (2 * P)"
    by (simp only:)
  moreover have "(2 * t + P) div (2 * P) = (if P \<le> 2 * t then 1 else 0)"
  proof (cases "P \<le> 2 * t")
    case True
    then have "2 * P \<le> 2 * t + P" "2 * t + P < 2 * (2 * P)" using t by simp_all
    then have "(2 * t + P) div (2 * P) = 1"
      by (intro div_nat_eqI) simp_all
    with True show ?thesis by simp
  next
    case False
    then have "2 * t + P < 2 * P" by simp
    with False show ?thesis by simp
  qed
  ultimately show ?thesis by (simp add: q_def t_def)
qed

lemma abs_pow10 [simp]: "\<bar>pow10 e\<bar> = pow10 e"
  using pow10_pos [of e] by (simp only: abs_of_pos)

lemma floor_trunc_nat: "\<lfloor>(of_nat c :: rat) / 10 ^ k\<rfloor> = int (c div 10 ^ k)"
  using floor_divide_of_nat_eq [of c "10 ^ k", where ?'a = rat] by simp

lemma floor_half_up_nat:
  "\<lfloor>(of_nat c :: rat) / 10 ^ k + 1 / 2\<rfloor> =
     int (c div 10 ^ k + (if 10 ^ k \<le> 2 * (c mod 10 ^ k) then 1 else 0))"
proof -
  have "(of_nat c :: rat) / 10 ^ k + 1 / 2 = of_nat (2 * c + 10 ^ k) / of_nat (2 * 10 ^ k)"
    by (simp add: field_simps)
  then have "\<lfloor>(of_nat c :: rat) / 10 ^ k + 1 / 2\<rfloor> = int ((2 * c + 10 ^ k) div (2 * 10 ^ k))"
    using floor_divide_of_nat_eq [of "2 * c + 10 ^ k" "2 * 10 ^ k", where ?'a = rat] by simp
  then show ?thesis
    using half_up_div [of "10 ^ k" c] by simp
qed

lemma floor_qcoef:
  "(if r then \<lfloor>(of_nat c :: rat) / 10 ^ k + 1 / 2\<rfloor> else \<lfloor>(of_nat c :: rat) / 10 ^ k\<rfloor>) =
     int (qcoef r c k)"
  by (simp add: qcoef_def floor_trunc_nat floor_half_up_nat)

lemma quantized_value_round:
  fixes sg :: rat
  assumes sg: "sg = 1 \<or> sg = - 1" and lt: "e + int n < 0"
  shows "quantized_value r n (sg * of_nat c * pow10 e) =
           sg * of_nat (qcoef r c (nat (- (e + int n)))) * pow10 (- int n)"
proof -
  define k where "k = nat (- (e + int n))"
  define x where "x = sg * of_nat c * pow10 e"
  have abs: "\<bar>x\<bar> = of_nat c * pow10 e"
    using sg by (auto simp: x_def abs_mult)
  have "pow10 e * 10 ^ n = pow10 (e + int n)"
    by (simp add: pow10_add)
  also have "\<dots> = pow10 (- int k)"
  proof -
    have "e + int n = - int k" using lt by (simp add: k_def)
    then show ?thesis by (simp only:)
  qed
  also have "\<dots> = 1 / 10 ^ k" by (rule pow10_neg_nat)
  finally have scaled: "\<bar>x\<bar> * 10 ^ n = of_nat c / 10 ^ k"
    by (simp add: abs mult.assoc)
  have sgnx: "sgn x * of_nat (qcoef r c k) = sg * of_nat (qcoef r c k)"
  proof (cases "c = 0")
    case True
    then show ?thesis by (simp add: qcoef_def)
  next
    case False
    then have "0 < of_nat c * pow10 e" by simp
    then have "sgn x = sg"
      using sg by (auto simp: x_def sgn_mult mult.assoc)
    then show ?thesis by simp
  qed
  have "quantized_value r n x = sgn x * of_int (int (qcoef r c k)) / 10 ^ n"
    unfolding quantized_value_def trunc_to_def half_up_to_def scaled
    using floor_qcoef [of r c k] by (cases r) simp_all
  also have "\<dots> = sg * of_nat (qcoef r c k) * pow10 (- int n)"
    using sgnx by (simp add: pow10_neg_nat)
  finally show ?thesis by (simp add: x_def k_def)
qed

lemma quantized_value_exact:
  fixes sg :: rat
  assumes sg: "sg = 1 \<or> sg = - 1" and ge: "0 \<le> e + int n"
  shows "quantized_value r n (sg * of_nat c * pow10 e) = sg * of_nat c * pow10 e"
proof -
  define j where "j = nat (e + int n)"
  define x where "x = sg * of_nat c * pow10 e"
  have abs: "\<bar>x\<bar> = of_nat c * pow10 e"
    using sg by (auto simp: x_def abs_mult)
  have "pow10 e * 10 ^ n = pow10 (e + int n)"
    by (simp add: pow10_add)
  also have "\<dots> = 10 ^ j" using ge by (simp add: j_def pow10_def)
  finally have scaled: "\<bar>x\<bar> * 10 ^ n = of_nat (c * 10 ^ j)"
    by (simp add: abs mult.assoc)
  have fl: "\<lfloor>(of_nat (c * 10 ^ j) :: rat)\<rfloor> = int (c * 10 ^ j)"
    "\<lfloor>(of_nat (c * 10 ^ j) :: rat) + 1 / 2\<rfloor> = int (c * 10 ^ j)"
    by (rule floor_unique, simp, simp)+
  have "quantized_value r n x = sgn x * (\<bar>x\<bar> * 10 ^ n) / 10 ^ n"
    unfolding quantized_value_def trunc_to_def half_up_to_def
    unfolding scaled fl by simp
  also have "\<dots> = sgn x * \<bar>x\<bar>" by simp
  also have "\<dots> = x" by (rule sgn_mult_abs)
  finally show ?thesis by (simp add: x_def)
qed

lemma sign_factor: "(if s then - 1 else (1::rat)) = 1 \<or> (if s then - 1 else (1::rat)) = - 1"
  by simp

lemma qcoef_small:
  assumes "int (ndigits c) < int k"
  shows "qcoef r c k = 0"
proof -
  from assms obtain j where k: "k = Suc j" and j: "ndigits c \<le> j"
    by (cases k) auto
  have "c < 10 ^ ndigits c" by (rule ndigits_upper)
  also have "\<dots> \<le> 10 ^ j" using j by (simp add: power_increasing)
  finally have cj: "c < 10 ^ j" .
  then have "2 * c < 10 ^ k" using k by simp
  moreover have "c < 10 ^ k" using cj k by simp
  ultimately show ?thesis by (simp add: qcoef_def)
qed

lemma round_coeff_qcoef:
  "round_coeff (if r then ROUND_HALF_UP else ROUND_DOWN) c k = qcoef r c k"
  by (simp add: round_coeff_def qcoef_def Let_def)

lemma dval_rescale:
  assumes "xe \<le> 0"
  shows "dval (rescale s c e xe (if r then ROUND_HALF_UP else ROUND_DOWN)) =
           quantized_value r (nat (- xe)) (dval (Fin s c e))"
proof -
  define n where "n = nat (- xe)"
  have xe: "xe = - int n" using assms by (simp add: n_def)
  define sg :: rat where "sg = (if s then - 1 else 1)"
  have sg: "sg = 1 \<or> sg = - 1" by (simp add: sg_def)
  show ?thesis
  proof (cases "xe \<le> e")
    case True
    then have ge: "0 \<le> e + int n" using xe by simp
    have "pow10 e = 10 ^ nat (e - xe) * pow10 xe"
      using True pow10_add [of "e - xe" xe] by (simp add: pow10_def)
    then have "dval (rescale s c e xe (if r then ROUND_HALF_UP else ROUND_DOWN)) = sg * of_nat c * pow10 e"
      using True by (simp add: rescale_def sg_def)
    with quantized_value_exact [OF sg ge, of r c] show ?thesis
      by (simp add: sg_def n_def)
  next
    case False
    then have lt: "e + int n < 0" using xe by simp
    have k: "nat (- (e + int n)) = nat (xe - e)" using xe by simp
    have "rescale s c e xe (if r then ROUND_HALF_UP else ROUND_DOWN) =
            Fin s (qcoef r c (nat (xe - e))) xe"
    proof (cases "c = 0")
      case True
      then show ?thesis by (simp add: rescale_def qcoef_def)
    next
      case c: False
      show ?thesis
      proof (cases "int (ndigits c) + e - xe < 0")
        case True
        then have "int (ndigits c) < int (nat (xe - e))" by simp
        from qcoef_small [OF this] True c False show ?thesis
          by (simp add: rescale_def)
      next
        case nf: False
        with c False show ?thesis
          by (simp add: rescale_def round_coeff_qcoef del: if_split)
      qed
    qed
    then have "dval (rescale s c e xe (if r then ROUND_HALF_UP else ROUND_DOWN)) =
                 sg * of_nat (qcoef r c (nat (xe - e))) * pow10 (- int n)"
      by (simp add: sg_def xe)
    with quantized_value_round [OF sg lt, of r c] k show ?thesis
      by (simp add: sg_def n_def)
  qed
qed

lemma Field_quantize_value:
  assumes "Field_quantize f (Fin s c e) r = Inr q"
  shows "\<exists>c'. q = Fin s c' (max (- int (digits_right f)) Etiny) \<and>
           dval q = quantized_value r (nat (- max (- int (digits_right f)) Etiny)) (dval (Fin s c e))"
proof -
  from Field_quantize_finite [OF assms] have le: "max (- int (digits_right f)) Etiny \<le> 0"
    and q: "q = rescale s c e (max (- int (digits_right f)) Etiny) (if r then ROUND_HALF_UP else ROUND_DOWN)"
    by auto
  from dval_rescale [OF le, of s c e r] q rescale_form [of s c e "max (- int (digits_right f)) Etiny"]
  show ?thesis by auto
qed

lemma Field_quantize_in_range:
  assumes "Etiny \<le> - int (digits_right f)" and "Field_quantize f (Fin s c e) r = Inr q"
  shows "(\<exists>c'. q = Fin s c' (- int (digits_right f))) \<and>
         dval q = quantized_value r (digits_right f) (dval (Fin s c e))"
proof -
  have "max (- int (digits_right f)) Etiny = - int (digits_right f)"
    using assms(1) by simp
  with Field_quantize_value [OF assms(2)] show ?thesis by simp
qed

lemma Field_set_success:
  "Field_set f raw r = (Inr True, f') \<Longrightarrow>
   \<exists>x. Decimal_of raw = Inr x \<and> Field_quantize f x r = Inr (value_f f') \<and>
       Field_fits f (value_f f') = Inr True \<and> f' = f\<lparr>value_f := value_f f'\<rparr>"
  by (drule Field_set_cases) auto

lemma Field_set_quantized:
  assumes "Decimal_of raw = Inr x" and "Field_quantize f x r = Inr q"
  shows "Field_set f raw r =
           (case Field_fits f q of
              Inl e \<Rightarrow> (Inl e, f)
            | Inr b \<Rightarrow> (Inr b, if b then f\<lparr>value_f := q\<rparr> else f))"
  using assms unfolding Field_set_def by (auto split: sum.splits bool.splits)

lemma Field_set_quantize_error:
  assumes "Decimal_of raw = Inr x" and "Field_quantize f x r = Inl e"
  shows "Field_set f raw r = (Inr False, f)"
  using assms Field_quantize_error [OF assms(2)] unfolding Field_set_def by simp

lemma quantized_value_ge:
  assumes "10 ^ d \<le> \<bar>x\<bar>"
  shows "10 ^ d \<le> \<bar>quantized_value r n x\<bar>"
proof -
  have "(0::rat) < 10 ^ d" by simp
  with assms have "0 < \<bar>x\<bar>" by linarith
  then have x0: "x \<noteq> 0" by simp
  then have sg: "\<bar>sgn x\<bar> = 1" by (simp add: abs_sgn_eq)
  have "(10::rat) ^ d * 10 ^ n \<le> \<bar>x\<bar> * 10 ^ n"
    using assms by (simp add: mult_right_mono)
  then have a: "of_int (10 ^ (d + n)) \<le> \<bar>x\<bar> * 10 ^ n"
    by (simp add: power_add)
  then have f1: "10 ^ (d + n) \<le> \<lfloor>\<bar>x\<bar> * 10 ^ n\<rfloor>"
    by (simp only: le_floor_iff)
  from a have "of_int (10 ^ (d + n)) \<le> \<bar>x\<bar> * 10 ^ n + 1 / 2" by linarith
  then have f2: "10 ^ (d + n) \<le> \<lfloor>\<bar>x\<bar> * 10 ^ n + 1 / 2\<rfloor>"
    by (simp only: le_floor_iff)
  define F where "F = (if r then \<lfloor>\<bar>x\<bar> * 10 ^ n + 1 / 2\<rfloor> else \<lfloor>\<bar>x\<bar> * 10 ^ n\<rfloor>)"
  have F: "10 ^ (d + n) \<le> F" using f1 f2 by (simp add: F_def)
  then have F0: "0 \<le> F" by (meson order_trans zero_le_numeral zero_le_power)
  have "quantized_value r n x = sgn x * of_int F / 10 ^ n"
    by (simp add: quantized_value_def trunc_to_def half_up_to_def F_def)
  then have "\<bar>quantized_value r n x\<bar> = of_int F / 10 ^ n"
    using sg F0 by (simp add: abs_mult)
  moreover have "(10::rat) ^ d * 10 ^ n \<le> of_int F"
    using F by (metis of_int_le_iff of_int_numeral of_int_power power_add)
  ultimately show ?thesis by (simp add: pos_le_divide_eq)
qed

lemma not_fits_large: "10 ^ digits_left f \<le> \<bar>v\<bar> \<Longrightarrow> \<not> fits_value f v"
  unfolding fits_value_def by (auto simp: abs_if split: if_splits)


section \<open>Truncation into a field that is wide enough\<close>

lemma pow10_mono: "a \<le> b \<Longrightarrow> pow10 a \<le> pow10 b"
proof -
  assume "a \<le> b"
  then have "pow10 b = pow10 a * 10 ^ nat (b - a)"
    using pow10_add [of a "b - a"] by (simp add: pow10_def)
  moreover have "pow10 a * 1 \<le> pow10 a * 10 ^ nat (b - a)"
    by (intro mult_left_mono less_imp_le [OF pow10_pos]) simp
  ultimately show ?thesis by simp
qed

lemma abs_dval: "\<bar>dval (Fin s c e)\<bar> = of_nat c * pow10 e"
  by (cases s) (simp_all add: abs_mult)

lemma adjusted_less:
  assumes "0 < c" and "of_nat c * pow10 e < 10 ^ d"
  shows "adjusted c e < int d"
proof (rule ccontr)
  assume "\<not> adjusted c e < int d"
  then have "int d \<le> e + int (ndigits c - 1)"
    using ndigits_pos [of c] by (simp add: adjusted_def)
  then have "pow10 (int d) \<le> pow10 (e + int (ndigits c - 1))" by (rule pow10_mono)
  also have "\<dots> = 10 ^ (ndigits c - 1) * pow10 e"
    by (simp add: pow10_add)
  also have "\<dots> \<le> of_nat c * pow10 e"
  proof -
    have "(of_nat (10 ^ (ndigits c - 1)) :: rat) \<le> of_nat c"
      using ndigits_lower [OF assms(1)] by (simp only: of_nat_le_iff)
    then show ?thesis using pow10_pos [of e] by (simp add: mult_right_mono)
  qed
  finally show False using assms(2) by simp
qed

lemma ndigits_bound:
  assumes "(of_nat c :: rat) < 10 ^ m"
  shows "int (ndigits c) \<le> max 1 (int m)"
proof (cases m)
  case 0
  with assms have "c = 0" by simp
  then show ?thesis by simp
next
  case (Suc j)
  from assms have "(of_nat c :: rat) < of_nat (10 ^ m)" by simp
  then have "c < 10 ^ m" by (simp only: of_nat_less_iff)
  from ndigits_le [OF this] Suc show ?thesis by simp
qed

lemma trunc_abs_le: "\<bar>quantized_value False n x\<bar> \<le> \<bar>x\<bar>"
proof -
  have f0: "0 \<le> \<lfloor>\<bar>x\<bar> * 10 ^ n\<rfloor>" by simp
  have "(of_int \<lfloor>\<bar>x\<bar> * 10 ^ n\<rfloor> :: rat) \<le> \<bar>x\<bar> * 10 ^ n" by (rule of_int_floor_le)
  then have le: "(of_int \<lfloor>\<bar>x\<bar> * 10 ^ n\<rfloor> :: rat) / 10 ^ n \<le> \<bar>x\<bar>"
    by (simp add: pos_divide_le_eq)
  have "\<bar>quantized_value False n x\<bar> = \<bar>sgn x\<bar> * (of_int \<lfloor>\<bar>x\<bar> * 10 ^ n\<rfloor> / 10 ^ n)"
    using f0 by (simp add: quantized_value_def trunc_to_def abs_mult)
  also have "\<dots> \<le> 1 * (of_int \<lfloor>\<bar>x\<bar> * 10 ^ n\<rfloor> / 10 ^ n)"
    using f0 by (intro mult_right_mono) (simp_all add: abs_sgn_eq)
  finally show ?thesis using le by simp
qed

lemma trunc_nonneg: "0 \<le> x \<Longrightarrow> 0 \<le> quantized_value False n x"
  by (simp add: quantized_value_def trunc_to_def sgn_if)

lemma quantize_down_succeeds:
  assumes xe: "Etiny \<le> xe" "xe \<le> 0"
    and small: "\<bar>dval (Fin s c e)\<bar> < 10 ^ d"
    and room: "int d - xe \<le> prec"
  shows "quantize (Fin s c e) (Fin xs xc xe) ROUND_DOWN = Inr (rescale s c e xe ROUND_DOWN)"
proof (cases "c = 0")
  case True
  have "dec_fix (Fin s 0 xe) = Inr (Fin s 0 xe)"
    using xe unfolding dec_fix_def by (auto simp: ctx_defs)
  with True xe show ?thesis
    unfolding quantize_def rescale_def by (simp add: ctx_defs)
next
  case False
  from small have c: "of_nat c * pow10 e < 10 ^ d" by (simp only: abs_dval)
  from adjusted_less [OF _ c] False have adj: "adjusted c e < int d" by simp
  obtain c' where r: "rescale s c e xe ROUND_DOWN = Fin s c' xe"
    using rescale_form by blast
  have "dval (rescale s c e xe (if False then ROUND_HALF_UP else ROUND_DOWN)) =
          quantized_value False (nat (- xe)) (dval (Fin s c e))"
    by (rule dval_rescale [OF xe(2)])
  then have "\<bar>dval (Fin s c' xe)\<bar> \<le> \<bar>dval (Fin s c e)\<bar>"
    using trunc_abs_le [of "nat (- xe)" "dval (Fin s c e)"] r by simp
  with small have "of_nat c' * pow10 xe < 10 ^ d" by (simp only: abs_dval)
  moreover have "pow10 xe = 1 / 10 ^ nat (- xe)"
    using xe(2) pow10_neg_nat [of "nat (- xe)"] by simp
  ultimately have "(of_nat c' :: rat) < 10 ^ (d + nat (- xe))"
    by (simp add: pos_divide_less_eq power_add)
  from ndigits_bound [OF this] room xe(2) have nd: "int (ndigits c') \<le> prec"
    by (simp add: ctx_defs)
  then have adj': "adjusted c' xe \<le> Emax"
    using xe(2) by (simp add: adjusted_def ctx_defs)
  have fx: "dec_fix (Fin s c' xe) = Inr (Fin s c' xe)"
    by (rule dec_fix_id [OF xe(1) nd adj'])
  from adj room xe have chk: "\<not> Emax < adjusted c e" "\<not> prec < adjusted c e - xe + 1"
    by (simp_all add: ctx_defs)
  from False xe chk r nd adj' fx show ?thesis
    unfolding quantize_def by (simp add: ctx_defs)
qed

lemma set_truncating_succeeds:
  assumes "Decimal_of raw = Inr (Fin s c e)"
    and room: "int (digits_left f) + int (digits_right f) \<le> prec"
    and small: "\<bar>dval (Fin s c e)\<bar> < 10 ^ digits_left f"
    and sign: "signed f \<or> 0 \<le> dval (Fin s c e)"
  shows "\<exists>q. Field_quantize f (Fin s c e) False = Inr q \<and>
             dval q = quantized_value False (digits_right f) (dval (Fin s c e)) \<and>
             Field_set f raw False = (Inr True, f\<lparr>value_f := q\<rparr>)"
proof -
  have rng: "Etiny \<le> - int (digits_right f)" "int (digits_left f) \<le> Emax"
    using room by (simp_all add: ctx_defs)
  have sc: "scaleb_one (- int (digits_right f)) = Inr (Fin False 1 (- int (digits_right f)))"
    by (rule scaleb_one_in_range [OF rng(1)])
  have room': "int (digits_left f) - (- int (digits_right f)) \<le> prec" using room by simp
  have le0: "- int (digits_right f) \<le> 0" by simp
  define q where "q = rescale s c e (- int (digits_right f)) ROUND_DOWN"
  have fq: "Field_quantize f (Fin s c e) False = Inr q"
    unfolding Field_quantize_def q_def
    using quantize_down_succeeds [OF rng(1) le0 small room', of False 1] sc by simp
  from Field_quantize_in_range [OF rng(1) fq]
  have dq: "dval q = quantized_value False (digits_right f) (dval (Fin s c e))"
    and form: "\<exists>c'. q = Fin s c' (- int (digits_right f))" by simp_all
  have "\<bar>dval q\<bar> < 10 ^ digits_left f"
    using trunc_abs_le [of "digits_right f" "dval (Fin s c e)"] small dq by simp
  moreover have "signed f \<or> 0 \<le> dval q"
    using sign trunc_nonneg [of "dval (Fin s c e)" "digits_right f"] dq by auto
  ultimately have "fits_value f (dval q)"
    unfolding fits_value_def by (auto simp: abs_less_iff)
  moreover from form obtain c' where "q = Fin s c' (- int (digits_right f))" by blast
  ultimately have "Field_fits f q = Inr True"
    using Field_fits_finite [OF rng(2), of s c' "- int (digits_right f)"] by simp
  with Field_set_quantized [OF assms(1) fq] fq dq show ?thesis by simp
qed

section \<open>The store of a value whose quantization fits\<close>

lemma quantized_digits_bound:
  assumes "\<bar>quantized_value r n x\<bar> * 10 ^ n < 10 ^ m"
  shows "\<bar>x\<bar> * 10 ^ n < 10 ^ m"
proof (cases "x = 0")
  case True
  then show ?thesis by simp
next
  case False
  then have sg: "\<bar>sgn x\<bar> = 1" by (simp add: abs_sgn_eq)
  define F where "F = (if r then \<lfloor>\<bar>x\<bar> * 10 ^ n + 1 / 2\<rfloor> else \<lfloor>\<bar>x\<bar> * 10 ^ n\<rfloor>)"
  have le: "\<lfloor>\<bar>x\<bar> * 10 ^ n\<rfloor> \<le> F"
    unfolding F_def by (auto intro: floor_mono)
  have "0 \<le> \<lfloor>\<bar>x\<bar> * 10 ^ n\<rfloor>" by simp
  with le have F0: "0 \<le> F" by linarith
  have "quantized_value r n x = sgn x * of_int F / 10 ^ n"
    by (simp add: quantized_value_def trunc_to_def half_up_to_def F_def)
  then have "\<bar>quantized_value r n x\<bar> * 10 ^ n = of_int F"
    using sg F0 by (simp add: abs_mult)
  with assms have "(of_int F :: rat) < of_int (10 ^ m)" by simp
  then have "F < 10 ^ m" by (simp only: of_int_less_iff)
  with le have "\<lfloor>\<bar>x\<bar> * 10 ^ n\<rfloor> < 10 ^ m" by simp
  then have "\<bar>x\<bar> * 10 ^ n < of_int (10 ^ m)" by (simp only: floor_less_iff)
  then show ?thesis by simp
qed

lemma quantize_succeeds:
  assumes xe: "Etiny \<le> xe" "xe \<le> 0"
    and digits: "\<bar>quantized_value r (nat (- xe)) (dval (Fin s c e))\<bar> * 10 ^ nat (- xe) < 10 ^ nat prec"
  shows "quantize (Fin s c e) (Fin xs xc xe) (if r then ROUND_HALF_UP else ROUND_DOWN) =
           Inr (rescale s c e xe (if r then ROUND_HALF_UP else ROUND_DOWN))"
proof (cases "c = 0")
  case True
  have "dec_fix (Fin s 0 xe) = Inr (Fin s 0 xe)"
    using xe unfolding dec_fix_def by (auto simp: ctx_defs)
  with True xe show ?thesis
    unfolding quantize_def rescale_def by (simp add: ctx_defs)
next
  case False
  define n where "n = nat (- xe)"
  have xn: "xe = - int n" using xe(2) by (simp add: n_def)
  define m where "m = (if r then ROUND_HALF_UP else ROUND_DOWN)"
  from quantized_digits_bound [OF digits]
  have "of_nat c * pow10 e * 10 ^ n < 10 ^ nat prec" by (simp only: abs_dval n_def)
  then have "of_nat c * pow10 (e + int n) < 10 ^ nat prec"
    by (simp add: pow10_add mult.assoc)
  from adjusted_less [OF _ this] False have "adjusted c (e + int n) < int (nat prec)" by simp
  then have adj: "adjusted c e - xe < prec"
    by (simp add: adjusted_def xn ctx_defs)
  obtain c' where r: "rescale s c e xe m = Fin s c' xe"
    using rescale_form by blast
  have "dval (Fin s c' xe) = quantized_value r n (dval (Fin s c e))"
    using dval_rescale [OF xe(2), of s c e r] r by (simp add: n_def m_def)
  then have "\<bar>quantized_value r n (dval (Fin s c e))\<bar> = of_nat c' * pow10 xe"
    using abs_dval [of s c' xe] by simp
  moreover have "pow10 xe * 10 ^ n = 1"
    using pow10_neg_nat [of n] by (simp add: xn)
  ultimately have "\<bar>quantized_value r n (dval (Fin s c e))\<bar> * 10 ^ n = of_nat c'"
    by (simp add: mult.assoc)
  with digits have "(of_nat c' :: rat) < 10 ^ nat prec" by (simp add: n_def)
  from ndigits_bound [OF this] have nd: "int (ndigits c') \<le> prec"
    by (simp add: ctx_defs)
  then have adj': "adjusted c' xe \<le> Emax"
    using xe(2) by (simp add: adjusted_def ctx_defs)
  have fx: "dec_fix (Fin s c' xe) = Inr (Fin s c' xe)"
    by (rule dec_fix_id [OF xe(1) nd adj'])
  from adj xe have chk: "\<not> Emax < adjusted c e" "\<not> prec < adjusted c e - xe + 1"
    by (simp_all add: ctx_defs)
  from False xe chk r nd adj' fx have
    "quantize (Fin s c e) (Fin xs xc xe) m = Inr (rescale s c e xe m)"
    unfolding quantize_def by (simp add: ctx_defs)
  then show ?thesis by (simp only: m_def)
qed

lemma quantize_digits:
  assumes "quantize (Fin s c e) (Fin xs xc xe) m = Inr q"
  shows "\<exists>c'. q = Fin s c' xe \<and> int (ndigits c') \<le> prec"
proof -
  from assms have rng: "Etiny \<le> xe" "xe \<le> Emax"
    unfolding quantize_def by (auto split: if_splits)
  show ?thesis
  proof (cases "c = 0")
    case True
    have "dec_fix (Fin s 0 xe) = Inr (Fin s 0 xe)"
      using rng unfolding dec_fix_def by auto
    with assms True rng show ?thesis
      unfolding quantize_def by (auto simp: ctx_defs)
  next
    case False
    obtain c' where r: "rescale s c e xe m = Fin s c' xe"
      using rescale_form by blast
    from assms False r rng have chk: "adjusted c' xe \<le> Emax" "int (ndigits c') \<le> prec"
      and res: "dec_fix (Fin s c' xe) = Inr q"
      unfolding quantize_def by (auto split: if_splits)
    from dec_fix_id [of xe c' s] chk rng res show ?thesis by simp
  qed
qed

lemma Field_quantize_digits:
  assumes rng: "Etiny \<le> - int (digits_right f)"
    and q: "Field_quantize f (Fin s c e) r = Inr q"
  shows "\<bar>dval q\<bar> * 10 ^ digits_right f < 10 ^ nat prec"
proof -
  have sc: "scaleb_one (- int (digits_right f)) = Inr (Fin False 1 (- int (digits_right f)))"
    by (rule scaleb_one_in_range [OF rng])
  with q have "quantize (Fin s c e) (Fin False 1 (- int (digits_right f)))
      (if r then ROUND_HALF_UP else ROUND_DOWN) = Inr q"
    unfolding Field_quantize_def by simp
  from quantize_digits [OF this] obtain c' where
    q': "q = Fin s c' (- int (digits_right f))" and nd: "int (ndigits c') \<le> prec" by blast
  have "c' < 10 ^ ndigits c'" by (rule ndigits_upper)
  also have "\<dots> \<le> 10 ^ nat prec"
    using nd by (intro power_increasing) simp_all
  finally have "(of_nat c' :: rat) < of_nat (10 ^ nat prec)" by (simp only: of_nat_less_iff)
  then have c': "(of_nat c' :: rat) < 10 ^ nat prec" by simp
  have "pow10 (- int (digits_right f)) * 10 ^ digits_right f = 1"
    using pow10_neg_nat [of "digits_right f"] by simp
  then have "\<bar>dval q\<bar> * 10 ^ digits_right f = of_nat c'"
    unfolding q' abs_dval by (simp add: mult.assoc)
  with c' show ?thesis by simp
qed

lemma set_fitting_succeeds:
  assumes raw: "Decimal_of raw = Inr (Fin s c e)"
    and left: "int (digits_left f) \<le> Emax"
    and rng: "Etiny \<le> - int (digits_right f)"
    and fit: "fits_value f (quantized_value r (digits_right f) (dval (Fin s c e)))"
    and digits: "\<bar>quantized_value r (digits_right f) (dval (Fin s c e))\<bar> * 10 ^ digits_right f
                   < 10 ^ nat prec"
  shows "\<exists>q. Field_quantize f (Fin s c e) r = Inr q \<and>
             dval q = quantized_value r (digits_right f) (dval (Fin s c e)) \<and>
             Field_set f raw r = (Inr True, f\<lparr>value_f := q\<rparr>)"
proof -
  have sc: "scaleb_one (- int (digits_right f)) = Inr (Fin False 1 (- int (digits_right f)))"
    by (rule scaleb_one_in_range [OF rng])
  have le0: "- int (digits_right f) \<le> 0" by simp
  have digits': "\<bar>quantized_value r (nat (- (- int (digits_right f)))) (dval (Fin s c e))\<bar> *
      10 ^ nat (- (- int (digits_right f))) < 10 ^ nat prec"
    using digits by simp
  define q where "q = rescale s c e (- int (digits_right f)) (if r then ROUND_HALF_UP else ROUND_DOWN)"
  have fq: "Field_quantize f (Fin s c e) r = Inr q"
    unfolding Field_quantize_def q_def
    using quantize_succeeds [OF rng le0 digits', of False 1] sc by simp
  from Field_quantize_in_range [OF rng fq]
  have dq: "dval q = quantized_value r (digits_right f) (dval (Fin s c e))"
    and form: "\<exists>c'. q = Fin s c' (- int (digits_right f))" by simp_all
  from form obtain c' where "q = Fin s c' (- int (digits_right f))" by blast
  with fit dq have "Field_fits f q = Inr True"
    using Field_fits_finite [OF left, of s c' "- int (digits_right f)"] by simp
  with Field_set_quantized [OF raw fq] fq dq show ?thesis by simp
qed

lemma set_not_fitting_fails:
  assumes raw: "Decimal_of raw = Inr (Fin s c e)"
    and left: "int (digits_left f) \<le> Emax"
    and rng: "Etiny \<le> - int (digits_right f)"
    and nofit: "\<not> (fits_value f (quantized_value r (digits_right f) (dval (Fin s c e))) \<and>
                  \<bar>quantized_value r (digits_right f) (dval (Fin s c e))\<bar> * 10 ^ digits_right f
                   < 10 ^ nat prec)"
  shows "Field_set f raw r = (Inr False, f)"
proof (cases "Field_quantize f (Fin s c e) r")
  case (Inl err)
  from Field_set_quantize_error [OF raw Inl] show ?thesis .
next
  case (Inr q)
  from Field_quantize_in_range [OF rng Inr]
  have dq: "dval q = quantized_value r (digits_right f) (dval (Fin s c e))"
    and form: "\<exists>c'. q = Fin s c' (- int (digits_right f))" by simp_all
  from Field_quantize_digits [OF rng Inr] dq nofit have nf: "\<not> fits_value f (dval q)" by simp
  from form obtain c' where "q = Fin s c' (- int (digits_right f))" by blast
  with nf have "Field_fits f q = Inr False"
    using Field_fits_finite [OF left, of s c' "- int (digits_right f)"] by simp
  with Field_set_quantized [OF raw Inr] show ?thesis by simp
qed

lemma fits_value_digits:
  assumes "int (digits_left f) + int (digits_right f) \<le> prec" and "fits_value f v"
  shows "\<bar>v\<bar> * 10 ^ digits_right f < 10 ^ nat prec"
proof -
  from assms(2) have "\<bar>v\<bar> < 10 ^ digits_left f"
    unfolding fits_value_def by (auto simp: abs_less_iff)
  then have "\<bar>v\<bar> * 10 ^ digits_right f < 10 ^ digits_left f * 10 ^ digits_right f"
    by (simp add: mult_strict_right_mono)
  also have "\<dots> = 10 ^ (digits_left f + digits_right f)" by (simp add: power_add)
  also have "\<dots> \<le> (10::rat) ^ nat prec"
    using assms(1) by (intro power_increasing) simp_all
  finally show ?thesis .
qed

section \<open>Claims about the store into a field\<close>

text \<open>
  Claim C6, at the input where the code departs from it: \<^verbatim>\<open>set("NaN")\<close> on the
  registry field \<^verbatim>\<open>MULT5\<close> raises \<^verbatim>\<open>InvalidOperation\<close> instead of returning
  \<^verbatim>\<open>False\<close>. The quiet NaN passes the conversion and the quantization inside the
  \<^verbatim>\<open>try\<close> block, and the comparison in \<^verbatim>\<open>_fits\<close>, outside it, raises. The field
  keeps its value.
\<close>

theorem set_NaN_raises:
  "fields_p initial ''MULT5'' =
     Some \<lparr>name = ''MULT5'', digits_left = 1, digits_right = 0, signed = False,
           value_f = Fin False 4 0\<rparr> \<and>
   Field_set \<lparr>name = ''MULT5'', digits_left = 1, digits_right = 0, signed = False,
           value_f = Fin False 4 0\<rparr> (NStr ''NaN'') False =
     (Inl InvalidOperation, \<lparr>name = ''MULT5'', digits_left = 1, digits_right = 0, signed = False,
           value_f = Fin False 4 0\<rparr>)"
  by (simp add: initial_MULT5 field_defs arith_defs ctx_defs parse_defs ndigits.simps)


text \<open>
  Claim C3, amended. The fit check is made on the quantized value, not on the raw one,
  in both modes. Write \<open>d\<close> for \<open>digits_left\<close>, \<open>r\<close> for
  \<open>digits_right\<close> and \<open>v\<close> for the quantization of the raw value to
  \<open>r\<close> fractional digits, by truncation or by rounding half up as the call asks.
  For a field whose \<open>d\<close> the context can raise ten to, and a finite raw value:
  when the quantization succeeds with \<open>q\<close>, \<^verbatim>\<open>set\<close> returns whether \<open>q\<close>
  fits and stores \<open>q\<close> exactly then; when the quantization fails, \<^verbatim>\<open>set\<close> returns
  \<^verbatim>\<open>False\<close>; to fit means \<open>0 \<le> q < 10 ^ d\<close> for an unsigned field and
  \<open>- 10 ^ d < q < 10 ^ d\<close> for a signed one; every raw value of magnitude
  \<open>10 ^ d\<close> or more is refused. In either mode \<^verbatim>\<open>set\<close> succeeds, and stores a
  decimal of value \<open>v\<close>, exactly when \<open>v\<close> fits and \<open>v\<close> has at most
  \<open>prec\<close> digits down to its \<open>r\<close>-th fractional place; it returns
  \<^verbatim>\<open>False\<close> otherwise. For a field with \<open>d + r \<le> prec\<close>, as every field
  of the registry, the second condition always holds: \<^verbatim>\<open>set\<close> succeeds exactly when
  \<open>v\<close> fits. In particular truncation accepts every raw value of magnitude below
  \<open>10 ^ d\<close> (not negative, for an unsigned field).
\<close>

theorem fit_check_on_quantized_value:
  assumes "int (digits_left f) \<le> Emax" and "Decimal_of raw = Inr x" and "is_finite x"
  shows "(\<forall>q. Field_quantize f x rounded = Inr q \<longrightarrow>
            Field_set f raw rounded =
              (Inr (fits_value f (dval q)), if fits_value f (dval q) then f\<lparr>value_f := q\<rparr> else f)) \<and>
         (\<forall>e. Field_quantize f x rounded = Inl e \<longrightarrow> Field_set f raw rounded = (Inr False, f)) \<and>
         (\<forall>v. \<not> signed f \<longrightarrow> fits_value f v = (0 \<le> v \<and> v < 10 ^ digits_left f)) \<and>
         (\<forall>v. signed f \<longrightarrow> fits_value f v = (- (10 ^ digits_left f) < v \<and> v < 10 ^ digits_left f)) \<and>
         (10 ^ digits_left f \<le> \<bar>dval x\<bar> \<longrightarrow> Field_set f raw rounded = (Inr False, f)) \<and>
         (int (digits_left f) + int (digits_right f) \<le> prec \<longrightarrow>
          \<bar>dval x\<bar> < 10 ^ digits_left f \<longrightarrow> signed f \<or> 0 \<le> dval x \<longrightarrow>
            (\<exists>q. Field_quantize f x False = Inr q \<and>
                 dval q = quantized_value False (digits_right f) (dval x) \<and>
                 Field_set f raw False = (Inr True, f\<lparr>value_f := q\<rparr>))) \<and>
         (Etiny \<le> - int (digits_right f) \<longrightarrow>
          fits_value f (quantized_value rounded (digits_right f) (dval x)) \<longrightarrow>
          \<bar>quantized_value rounded (digits_right f) (dval x)\<bar> * 10 ^ digits_right f < 10 ^ nat prec \<longrightarrow>
            (\<exists>q. Field_quantize f x rounded = Inr q \<and>
                 dval q = quantized_value rounded (digits_right f) (dval x) \<and>
                 Field_set f raw rounded = (Inr True, f\<lparr>value_f := q\<rparr>))) \<and>
         (Etiny \<le> - int (digits_right f) \<longrightarrow>
          \<not> (fits_value f (quantized_value rounded (digits_right f) (dval x)) \<and>
             \<bar>quantized_value rounded (digits_right f) (dval x)\<bar> * 10 ^ digits_right f < 10 ^ nat prec) \<longrightarrow>
            Field_set f raw rounded = (Inr False, f)) \<and>
         (int (digits_left f) + int (digits_right f) \<le> prec \<longrightarrow>
          fits_value f (quantized_value rounded (digits_right f) (dval x)) \<longrightarrow>
            (\<exists>q. Field_quantize f x rounded = Inr q \<and>
                 dval q = quantized_value rounded (digits_right f) (dval x) \<and>
                 Field_set f raw rounded = (Inr True, f\<lparr>value_f := q\<rparr>))) \<and>
         (int (digits_left f) + int (digits_right f) \<le> prec \<longrightarrow>
          \<not> fits_value f (quantized_value rounded (digits_right f) (dval x)) \<longrightarrow>
            Field_set f raw rounded = (Inr False, f))"
proof -
  obtain s c e where x: "x = Fin s c e" using assms(3) by (cases x) auto
  have A: "Field_set f raw rounded =
        (Inr (fits_value f (dval q)), if fits_value f (dval q) then f\<lparr>value_f := q\<rparr> else f)"
    if q: "Field_quantize f x rounded = Inr q" for q
  proof -
    from Field_quantize_is_finite [OF q] assms(3) obtain s' c' e' where q': "q = Fin s' c' e'"
      by (cases q) auto
    from Field_set_quantized [OF assms(2) q] Field_fits_finite [OF assms(1), of s' c' e'] q'
    show ?thesis by simp
  qed
  have B: "Field_set f raw rounded = (Inr False, f)" if "Field_quantize f x rounded = Inl e" for e
    using Field_set_quantize_error [OF assms(2) that] .
  have C: "fits_value f v = (0 \<le> v \<and> v < 10 ^ digits_left f)" if "\<not> signed f" for v
  proof -
    have "(0::rat) < 10 ^ digits_left f" by simp
    then show ?thesis using that unfolding fits_value_def by auto
  qed
  have D: "fits_value f v = (- (10 ^ digits_left f) < v \<and> v < 10 ^ digits_left f)" if "signed f" for v
    using that unfolding fits_value_def by auto
  have E: "Field_set f raw rounded = (Inr False, f)" if big: "10 ^ digits_left f \<le> \<bar>dval x\<bar>"
  proof (cases "Field_quantize f x rounded")
    case (Inl e)
    then show ?thesis by (rule B)
  next
    case (Inr q)
    from Field_quantize_value [of f s c e rounded q] Inr x
    have "dval q = quantized_value rounded (nat (- max (- int (digits_right f)) Etiny)) (dval x)"
      by auto
    with quantized_value_ge [OF big] have "10 ^ digits_left f \<le> \<bar>dval q\<bar>" by simp
    then have "\<not> fits_value f (dval q)" by (rule not_fits_large)
    with A [OF Inr] show ?thesis by simp
  qed
  have F: "\<exists>q. Field_quantize f x False = Inr q \<and>
                 dval q = quantized_value False (digits_right f) (dval x) \<and>
                 Field_set f raw False = (Inr True, f\<lparr>value_f := q\<rparr>)"
    if "int (digits_left f) + int (digits_right f) \<le> prec"
      and "\<bar>dval x\<bar> < 10 ^ digits_left f" and "signed f \<or> 0 \<le> dval x"
    using set_truncating_succeeds [of raw s c e f] assms(2) x that by simp
  have G: "\<exists>q. Field_quantize f x rounded = Inr q \<and>
                 dval q = quantized_value rounded (digits_right f) (dval x) \<and>
                 Field_set f raw rounded = (Inr True, f\<lparr>value_f := q\<rparr>)"
    if "Etiny \<le> - int (digits_right f)"
      and "fits_value f (quantized_value rounded (digits_right f) (dval x))"
      and "\<bar>quantized_value rounded (digits_right f) (dval x)\<bar> * 10 ^ digits_right f < 10 ^ nat prec"
    using set_fitting_succeeds [of raw s c e f rounded] assms(1,2) x that by simp
  have H: "Field_set f raw rounded = (Inr False, f)"
    if "Etiny \<le> - int (digits_right f)"
      and "\<not> (fits_value f (quantized_value rounded (digits_right f) (dval x)) \<and>
             \<bar>quantized_value rounded (digits_right f) (dval x)\<bar> * 10 ^ digits_right f < 10 ^ nat prec)"
    using set_not_fitting_fails [of raw s c e f rounded] assms(1,2) x that by simp
  have rng: "Etiny \<le> - int (digits_right f)"
    if "int (digits_left f) + int (digits_right f) \<le> prec"
    using that by (simp add: ctx_defs)
  have I: "\<exists>q. Field_quantize f x rounded = Inr q \<and>
                 dval q = quantized_value rounded (digits_right f) (dval x) \<and>
                 Field_set f raw rounded = (Inr True, f\<lparr>value_f := q\<rparr>)"
    if room: "int (digits_left f) + int (digits_right f) \<le> prec"
      and fit: "fits_value f (quantized_value rounded (digits_right f) (dval x))"
    using G [OF rng [OF room] fit fits_value_digits [OF room fit]] .
  have J: "Field_set f raw rounded = (Inr False, f)"
    if room: "int (digits_left f) + int (digits_right f) \<le> prec"
      and nofit: "\<not> fits_value f (quantized_value rounded (digits_right f) (dval x))"
    using H [OF rng [OF room]] nofit by simp
  show ?thesis
    apply (intro conjI allI impI)
    subgoal for q by (rule A)
    subgoal for e by (rule B)
    subgoal for v by (rule C)
    subgoal for v by (rule D)
    subgoal by (rule E)
    subgoal by (rule F)
    subgoal by (rule G)
    subgoal by (rule H)
    subgoal by (rule I)
    subgoal by (rule J)
    done
qed

lemmas eval_defs = field_defs arith_defs ctx_defs parse_defs ndigits.simps

lemma Decimal_of_1234565: "Decimal_of (NStr ''12345.65'') = Inr (Fin False 1234565 (- 2))"
  by (simp add: Decimal_of_def parse_defs ndigits.simps)

lemma Decimal_of_1234564: "Decimal_of (NStr ''12345.64'') = Inr (Fin False 1234564 (- 2))"
  by (simp add: Decimal_of_def parse_defs ndigits.simps)

lemma Decimal_of_minus_04: "Decimal_of (NStr ''-0.4'') = Inr (Fin True 4 (- 1))"
  by (simp add: Decimal_of_def parse_defs ndigits.simps)

lemma Decimal_of_minus_0: "Decimal_of (NStr ''-0'') = Inr (Fin True 0 0)"
  by (simp add: Decimal_of_def parse_defs ndigits.simps)

lemma quantize_examples:
  assumes "digits_right g = 1"
  shows "Field_quantize g (Fin False 1234565 (- 2)) True = Inr (Fin False 123457 (- 1))"
    and "Field_quantize g (Fin False 1234564 (- 2)) True = Inr (Fin False 123456 (- 1))"
    and "Field_quantize g (Fin False 1234565 (- 2)) False = Inr (Fin False 123456 (- 1))"
  using assms by (simp_all add: Field_quantize_def arith_defs ctx_defs ndigits.simps)

lemma set_examples_5V1:
  "Field_set \<lparr>name = ''WRK_DU_5V1_1'', digits_left = 5, digits_right = 1, signed = False,
              value_f = Fin False 123456 (- 1)\<rparr> (NStr ''12345.65'') True =
     (Inr True, \<lparr>name = ''WRK_DU_5V1_1'', digits_left = 5, digits_right = 1, signed = False,
                 value_f = Fin False 123457 (- 1)\<rparr>)"
  "Field_set \<lparr>name = ''WRK_DU_5V1_1'', digits_left = 5, digits_right = 1, signed = False,
              value_f = Fin False 123456 (- 1)\<rparr> (NStr ''12345.64'') True =
     (Inr True, \<lparr>name = ''WRK_DU_5V1_1'', digits_left = 5, digits_right = 1, signed = False,
                 value_f = Fin False 123456 (- 1)\<rparr>)"
  "Field_set \<lparr>name = ''WRK_DU_5V1_1'', digits_left = 5, digits_right = 1, signed = False,
              value_f = Fin False 0 0\<rparr> (NStr ''12345.65'') False =
     (Inr True, \<lparr>name = ''WRK_DU_5V1_1'', digits_left = 5, digits_right = 1, signed = False,
                 value_f = Fin False 123456 (- 1)\<rparr>)"
  by (simp_all add: eval_defs)

text \<open>
  Claim C4. For a field whose \<open>digits_right\<close> lies in the exponent range of the
  context, a successful quantization of a finite value has exactly \<open>digits_right\<close>
  fractional digits and its value is the truncation toward zero, or the rounding half up
  (away from zero), of the raw value; a successful \<^verbatim>\<open>set\<close> stores that quantization.
  With one fractional digit, \<open>12345.65\<close> rounds to \<open>12345.7\<close>, \<open>12345.64\<close>
  rounds to \<open>12345.6\<close> and \<open>12345.65\<close> truncates to \<open>12345.6\<close>.
\<close>

theorem set_quantizes_to_digits_right:
  "(Etiny \<le> - int (digits_right f) \<longrightarrow> Field_quantize f (Fin s c e) rounded = Inr q \<longrightarrow>
      (\<exists>c'. q = Fin s c' (- int (digits_right f))) \<and>
      dval q = quantized_value rounded (digits_right f) (dval (Fin s c e))) \<and>
   (Field_set f raw rounded = (Inr True, f') \<longrightarrow>
      (\<exists>x. Decimal_of raw = Inr x \<and> Field_quantize f x rounded = Inr (value_f f') \<and>
           f' = f\<lparr>value_f := value_f f'\<rparr>)) \<and>
   (digits_right g = 1 \<longrightarrow>
      Decimal_of (NStr ''12345.65'') = Inr (Fin False 1234565 (- 2)) \<and>
      Decimal_of (NStr ''12345.64'') = Inr (Fin False 1234564 (- 2)) \<and>
      Field_quantize g (Fin False 1234565 (- 2)) True = Inr (Fin False 123457 (- 1)) \<and>
      Field_quantize g (Fin False 1234564 (- 2)) True = Inr (Fin False 123456 (- 1)) \<and>
      Field_quantize g (Fin False 1234565 (- 2)) False = Inr (Fin False 123456 (- 1)))"
  using Field_quantize_in_range [of f s c e rounded q] Field_set_success [of f raw rounded f']
    quantize_examples [of g] Decimal_of_1234565 Decimal_of_1234564
  by blast

theorem set_quantizes_to_digits_right_witness:
  "Etiny \<le> - int (digits_right
      \<lparr>name = ''WRK_DU_5V1_1'', digits_left = 5, digits_right = 1, signed = False,
       value_f = Fin False 123456 (- 1)\<rparr>) \<and>
   Field_quantize \<lparr>name = ''WRK_DU_5V1_1'', digits_left = 5, digits_right = 1, signed = False,
       value_f = Fin False 123456 (- 1)\<rparr> (Fin False 1234565 (- 2)) True =
     Inr (Fin False 123457 (- 1)) \<and>
   dval (Fin False 123457 (- 1)) = quantized_value True 1 (dval (Fin False 1234565 (- 2))) \<and>
   Field_set \<lparr>name = ''WRK_DU_5V1_1'', digits_left = 5, digits_right = 1, signed = False,
       value_f = Fin False 123456 (- 1)\<rparr> (NStr ''12345.65'') True =
     (Inr True, \<lparr>name = ''WRK_DU_5V1_1'', digits_left = 5, digits_right = 1, signed = False,
                 value_f = Fin False 123457 (- 1)\<rparr>)"
proof -
  let ?f = "\<lparr>name = ''WRK_DU_5V1_1'', digits_left = 5, digits_right = 1, signed = False,
       value_f = Fin False 123456 (- 1)\<rparr>"
  have r: "Etiny \<le> - int (digits_right ?f)" by (simp add: ctx_defs)
  have q: "Field_quantize ?f (Fin False 1234565 (- 2)) True = Inr (Fin False 123457 (- 1))"
    by (rule quantize_examples) simp
  from set_quantizes_to_digits_right [of ?f False 1234565 "- 2" True "Fin False 123457 (- 1)"] r q
  have "dval (Fin False 123457 (- 1)) = quantized_value True 1 (dval (Fin False 1234565 (- 2)))"
    by simp
  with r q set_examples_5V1(1) show ?thesis by simp
qed

text \<open>
  Claim C10. For an unsigned field whose \<open>digits_left\<close> the context can raise ten
  to, a finite raw value that is negative or zero and whose quantization is zero is
  accepted and the zero is stored: \<^verbatim>\<open>set("-0.4")\<close> with truncation and
  \<^verbatim>\<open>set("-0")\<close> on a field without fractional digits both return \<^verbatim>\<open>True\<close>.
\<close>

lemma set_negative_zero_examples:
  "Field_set \<lparr>name = ''MULT6'', digits_left = 2, digits_right = 0, signed = False,
              value_f = Fin False 20 0\<rparr> (NStr ''-0.4'') False =
     (Inr True, \<lparr>name = ''MULT6'', digits_left = 2, digits_right = 0, signed = False,
                 value_f = Fin True 0 0\<rparr>)"
  "Field_set \<lparr>name = ''MULT6'', digits_left = 2, digits_right = 0, signed = False,
              value_f = Fin False 20 0\<rparr> (NStr ''-0'') False =
     (Inr True, \<lparr>name = ''MULT6'', digits_left = 2, digits_right = 0, signed = False,
                 value_f = Fin True 0 0\<rparr>)"
  by (simp_all add: eval_defs)

theorem unsigned_accepts_negative_input_quantized_to_zero:
  assumes "\<not> signed f" and "int (digits_left f) \<le> Emax"
    and "Decimal_of raw = Inr x" and "is_finite x" and "dval x \<le> 0"
    and "Field_quantize f x rounded = Inr q" and "dval q = 0"
  shows "Field_set f raw rounded = (Inr True, f\<lparr>value_f := q\<rparr>) \<and>
         Field_set \<lparr>name = ''MULT6'', digits_left = 2, digits_right = 0, signed = False,
              value_f = Fin False 20 0\<rparr> (NStr ''-0.4'') False =
           (Inr True, \<lparr>name = ''MULT6'', digits_left = 2, digits_right = 0, signed = False,
                 value_f = Fin True 0 0\<rparr>) \<and>
         Field_set \<lparr>name = ''MULT6'', digits_left = 2, digits_right = 0, signed = False,
              value_f = Fin False 20 0\<rparr> (NStr ''-0'') False =
           (Inr True, \<lparr>name = ''MULT6'', digits_left = 2, digits_right = 0, signed = False,
                 value_f = Fin True 0 0\<rparr>)"
proof -
  from Field_quantize_is_finite [OF assms(6)] assms(4) obtain s c e where q: "q = Fin s c e"
    by (cases q) auto
  have "fits_value f (dval q)"
    using assms(1,7) by (simp add: fits_value_def)
  with Field_fits_finite [OF assms(2), of s c e] q have "Field_fits f q = Inr True" by simp
  with Field_set_quantized [OF assms(3,6)] set_negative_zero_examples show ?thesis by simp
qed

theorem unsigned_accepts_negative_input_quantized_to_zero_witness:
  "\<not> signed \<lparr>name = ''MULT6'', digits_left = 2, digits_right = 0, signed = False,
              value_f = Fin False 20 0\<rparr> \<and>
   Decimal_of (NStr ''-0.4'') = Inr (Fin True 4 (- 1)) \<and> dval (Fin True 4 (- 1)) \<le> 0 \<and>
   Field_quantize \<lparr>name = ''MULT6'', digits_left = 2, digits_right = 0, signed = False,
              value_f = Fin False 20 0\<rparr> (Fin True 4 (- 1)) False = Inr (Fin True 0 0) \<and>
   dval (Fin True 0 0) = 0 \<and>
   Field_set \<lparr>name = ''MULT6'', digits_left = 2, digits_right = 0, signed = False,
              value_f = Fin False 20 0\<rparr> (NStr ''-0.4'') False =
     (Inr True, \<lparr>name = ''MULT6'', digits_left = 2, digits_right = 0, signed = False,
              value_f = Fin False 20 0\<rparr>\<lparr>value_f := Fin True 0 0\<rparr>)"
proof -
  let ?f = "\<lparr>name = ''MULT6'', digits_left = 2, digits_right = 0, signed = False,
              value_f = Fin False 20 0\<rparr>"
  have h1: "\<not> signed ?f" by simp
  have h2: "int (digits_left ?f) \<le> Emax" by (simp add: ctx_defs)
  have h4: "is_finite (Fin True 4 (- 1))" by simp
  have h5: "dval (Fin True 4 (- 1)) \<le> 0" by (simp add: pow10_def)
  have h6: "Field_quantize ?f (Fin True 4 (- 1)) False = Inr (Fin True 0 0)"
    by (simp add: Field_quantize_def arith_defs ctx_defs ndigits.simps)
  have h7: "dval (Fin True 0 0) = 0" by simp
  from unsigned_accepts_negative_input_quantized_to_zero [OF h1 h2 Decimal_of_minus_04 h4 h5 h6 h7]
    h1 h5 h6 h7 Decimal_of_minus_04
  show ?thesis by simp
qed

text \<open>
  Claim C3 as it is stated fails: the unsigned field \<^verbatim>\<open>MULT5\<close> accepts the negative
  value \<open>-0.4\<close>, which truncates to zero.
\<close>

theorem unsigned_set_accepts_a_negative_value:
  "\<not> signed \<lparr>name = ''MULT5'', digits_left = 1, digits_right = 0, signed = False,
              value_f = Fin False 4 0\<rparr> \<and>
   Decimal_of (NStr ''-0.4'') = Inr (Fin True 4 (- 1)) \<and> dval (Fin True 4 (- 1)) < 0 \<and>
   Field_set \<lparr>name = ''MULT5'', digits_left = 1, digits_right = 0, signed = False,
              value_f = Fin False 4 0\<rparr> (NStr ''-0.4'') False =
     (Inr True, \<lparr>name = ''MULT5'', digits_left = 1, digits_right = 0, signed = False,
              value_f = Fin True 0 0\<rparr>)"
  by (simp add: eval_defs)

lemma Decimal_of_95: "Decimal_of (NStr ''9.5'') = Inr (Fin False 95 (- 1))"
  by (simp add: Decimal_of_def parse_defs ndigits.simps)

lemma Decimal_of_16: "Decimal_of (NStr ''16'') = Inr (Fin False 16 0)"
  by (simp add: Decimal_of_def parse_defs ndigits.simps)

lemma Decimal_of_124: "Decimal_of (NStr ''12.4'') = Inr (Fin False 124 (- 1))"
  by (simp add: Decimal_of_def parse_defs ndigits.simps)

theorem fit_check_on_quantized_value_witness:
  "int (digits_left \<lparr>name = ''MULT5'', digits_left = 1, digits_right = 0, signed = False,
              value_f = Fin False 4 0\<rparr>) \<le> Emax \<and>
   Decimal_of (NStr ''9.5'') = Inr (Fin False 95 (- 1)) \<and> is_finite (Fin False 95 (- 1)) \<and>
   Field_quantize \<lparr>name = ''MULT5'', digits_left = 1, digits_right = 0, signed = False,
              value_f = Fin False 4 0\<rparr> (Fin False 95 (- 1)) True = Inr (Fin False 10 0) \<and>
   Field_set \<lparr>name = ''MULT5'', digits_left = 1, digits_right = 0, signed = False,
              value_f = Fin False 4 0\<rparr> (NStr ''9.5'') True =
     (Inr False, \<lparr>name = ''MULT5'', digits_left = 1, digits_right = 0, signed = False,
              value_f = Fin False 4 0\<rparr>) \<and>
   Decimal_of (NStr ''12.4'') = Inr (Fin False 124 (- 1)) \<and> is_finite (Fin False 124 (- 1)) \<and>
   quantized_value True 0 (dval (Fin False 124 (- 1))) = 12 \<and>
   fits_value \<lparr>name = ''MULT6'', digits_left = 2, digits_right = 0, signed = False,
              value_f = Fin False 20 0\<rparr> 12 \<and>
   Field_set \<lparr>name = ''MULT6'', digits_left = 2, digits_right = 0, signed = False,
              value_f = Fin False 20 0\<rparr> (NStr ''12.4'') True =
     (Inr True, \<lparr>name = ''MULT6'', digits_left = 2, digits_right = 0, signed = False,
              value_f = Fin False 12 0\<rparr>)"
proof -
  let ?f = "\<lparr>name = ''MULT5'', digits_left = 1, digits_right = 0, signed = False,
              value_f = Fin False 4 0\<rparr>"
  let ?g = "\<lparr>name = ''MULT6'', digits_left = 2, digits_right = 0, signed = False,
              value_f = Fin False 20 0\<rparr>"
  have h1: "int (digits_left ?f) \<le> Emax" by (simp add: ctx_defs)
  have h3: "is_finite (Fin False 95 (- 1))" by simp
  have q: "Field_quantize ?f (Fin False 95 (- 1)) True = Inr (Fin False 10 0)"
    by (simp add: Field_quantize_def arith_defs ctx_defs ndigits.simps)
  have nf: "\<not> fits_value ?f (dval (Fin False 10 0))" by (simp add: fits_value_def pow10_def)
  from fit_check_on_quantized_value [OF h1 Decimal_of_95 h3, of True] q nf
  have r1: "Field_set ?f (NStr ''9.5'') True = (Inr False, ?f)" by simp
  have g1: "int (digits_left ?g) \<le> Emax" by (simp add: ctx_defs)
  have g3: "is_finite (Fin False 124 (- 1))" by simp
  have room: "int (digits_left ?g) + int (digits_right ?g) \<le> prec" by (simp add: ctx_defs)
  have rng: "Etiny \<le> - int (digits_right ?g)" by (simp add: ctx_defs)
  have gq: "Field_quantize ?g (Fin False 124 (- 1)) True = Inr (Fin False 12 0)"
    by (simp add: Field_quantize_def arith_defs ctx_defs ndigits.simps)
  from Field_quantize_in_range [OF rng gq]
  have q0: "dval (Fin False 12 0) = quantized_value True 0 (dval (Fin False 124 (- 1)))"
    by (simp del: dval.simps)
  have d12: "dval (Fin False 12 0) = 12" by (simp add: pow10_def)
  from q0 d12 have qv: "quantized_value True 0 (dval (Fin False 124 (- 1))) = 12"
    by (simp only:)
  have fit: "fits_value ?g 12" by (simp add: fits_value_def)
  from fit_check_on_quantized_value [OF g1 Decimal_of_124 g3, of True] room qv fit gq
  have r2: "Field_set ?g (NStr ''12.4'') True = (Inr True, ?g\<lparr>value_f := Fin False 12 0\<rparr>)"
    by auto
  from h1 h3 q r1 Decimal_of_95 Decimal_of_124 g3 qv fit r2 show ?thesis by simp
qed

section \<open>The invariant of the registry\<close>

lemma Field_set_inv:
  assumes "Field_set f raw r = (out, f')" and "field_inv f"
  shows "field_inv f'"
proof -
  from Field_set_cases [OF assms(1)] show ?thesis
  proof
    assume "out = Inr True \<and> (\<exists>d v. Decimal_of raw = Inr d \<and> Field_quantize f d r = Inr v \<and>
             Field_fits f v = Inr True \<and> f' = f\<lparr>value_f := v\<rparr>)"
    then obtain d v where q: "Field_quantize f d r = Inr v"
      and fit: "Field_fits f v = Inr True" and f': "f' = f\<lparr>value_f := v\<rparr>"
      by blast
    from Field_fits_True [OF fit] have fin: "is_finite v" and fv: "fits_value f (dval v)"
      by simp_all
    from Field_quantize_is_finite [OF q] fin obtain s c e where d: "d = Fin s c e"
      by (cases d) auto
    from Field_quantize_value [of f s c e r v] q d obtain c' where
      "v = Fin s c' (max (- int (digits_right f)) Etiny)" by auto
    then have "multiple_of_unit (digits_right f) v"
      by (simp add: multiple_of_unit_def)
    with fv f' show ?thesis
      by (simp add: field_inv_def fits_value_def)
  next
    assume "out \<noteq> Inr True \<and> f' = f"
    with assms(2) show ?thesis by simp
  qed
qed

lemma registry_inv_update:
  "registry_inv q \<Longrightarrow> field_inv g \<Longrightarrow> registry_inv (q\<lparr>fields_p := (fields_p q)(n \<mapsto> g)\<rparr>)"
  unfolding registry_inv_def by auto

lemma registry_inv_field: "registry_inv q \<Longrightarrow> fields_p q n = Some g \<Longrightarrow> field_inv g"
  unfolding registry_inv_def by blast

lemma multiply_loop_inv:
  "multiply_loop q snaps rounded product ns = (out, q') \<Longrightarrow>
   differs_only_in q p (fst ` set snaps) \<Longrightarrow> snaps_of p snaps \<Longrightarrow>
   set ns \<subseteq> fst ` set snaps \<Longrightarrow> registry_inv p \<Longrightarrow> registry_inv q \<Longrightarrow> registry_inv q'"
proof (induction ns arbitrary: q)
  case Nil
  then show ?case by simp
next
  case (Cons n ns)
  show ?case
  proof (cases "fields_p q n")
    case None
    with Cons.prems(1,6) show ?thesis by simp
  next
    case (Some field)
    obtain o1 field' where fs: "Field_set field (NDec product) (n \<in> set rounded) = (o1, field')"
      by (cases "Field_set field (NDec product) (n \<in> set rounded)")
    have inv': "field_inv field'"
      using Field_set_inv [OF fs] registry_inv_field [OF Cons.prems(6) Some] by simp
    let ?q1 = "q\<lparr>fields_p := (fields_p q)(n \<mapsto> field')\<rparr>"
    have q1: "registry_inv ?q1"
      using registry_inv_update [OF Cons.prems(6) inv'] .
    from Field_set_cases [OF fs] show ?thesis
    proof
      assume ok: "o1 = Inr True \<and> (\<exists>d v. Decimal_of (NDec product) = Inr d \<and>
         Field_quantize field d (n \<in> set rounded) = Inr v \<and>
         Field_fits field v = Inr True \<and> field' = field\<lparr>value_f := v\<rparr>)"
      from ok Cons.prems(1) Some fs
      have rec: "multiply_loop ?q1 snaps rounded product ns = (out, q')"
        by simp
      have nk: "n \<in> fst ` set snaps" using Cons.prems(4) by simp
      have d1: "differs_only_in ?q1 p (fst ` set snaps)"
        using differs_only_in_update [OF Cons.prems(2) nk Some] ok by auto
      from Cons.prems(4) have sub: "set ns \<subseteq> fst ` set snaps" by simp
      from Cons.IH [OF rec d1 Cons.prems(3) sub Cons.prems(5) q1] show ?thesis .
    next
      assume bad: "o1 \<noteq> Inr True \<and> field' = field"
      then have same: "?q1 = q"
        using Some by (simp add: fun_upd_idem)
      have r: "restore q snaps = (None, p)"
        using restore_all [OF Cons.prems(2) Cons.prems(3)] .
      show ?thesis
      proof (cases o1)
        case (Inl e)
        with Cons.prems(1) Some fs same have "q' = q" by simp
        with Cons.prems(6) show ?thesis by simp
      next
        case (Inr b)
        with bad have "b = False" by simp
        with Inr Cons.prems(1) Some fs same r have "q' = p" by simp
        with Cons.prems(5) show ?thesis by simp
      qed
    qed
  qed
qed

lemma multiply_inv:
  assumes "multiply p m mu add rs = (out, p')" and "registry_inv p"
  shows "registry_inv p'"
proof (cases "p' = p")
  case True
  with assms(2) show ?thesis by simp
next
  case False
  with assms(1) obtain mv mf snaps product where
    sn: "snapshots p (mu # add) [] = Inr snaps"
    and lp: "multiply_loop p snaps rs product (mu # add) = (out, p')"
    unfolding multiply_def by (auto simp: Let_def split: sum.splits option.splits)
  have s1: "snaps_of p snaps"
    using snapshots_sound [OF sn] by (simp add: snaps_of_def)
  have s2: "set (mu # add) \<subseteq> fst ` set snaps"
    using snapshots_keys [OF sn] by simp
  from multiply_loop_inv [OF lp differs_only_in_refl s1 s2 assms(2) assms(2)] show ?thesis .
qed

lemma initial_inv: "registry_inv initial"
  unfolding registry_inv_def
  by (auto simp: init_defs parse_defs ndigits.simps field_inv_def multiple_of_unit_def
      fits_value_def pow10_def split: if_splits)

lemma reachable_inv: "reachable p \<Longrightarrow> registry_inv p"
proof (induction rule: reachable.induct)
  case reach_init
  show ?case by (rule initial_inv)
next
  case (reach_set p n f raw rounded out f')
  from Field_set_inv [OF reach_set.hyps(3)] registry_inv_field [OF reach_set.IH reach_set.hyps(2)]
  have "field_inv f'" by simp
  with reach_set.IH show ?case by (rule registry_inv_update)
next
  case (reach_multiply p multiplicand multiplier additional rounded out p')
  from multiply_inv [OF reach_multiply.hyps(2) reach_multiply.IH] show ?case .
qed

lemma mult56:
  "multiply initial (NStr ''MULT5'') ''MULT6'' [] [] =
     (Inr False, initial\<lparr>fields_p := (fields_p initial)(''MULT6'' \<mapsto>
        \<lparr>name = ''MULT6'', digits_left = 2, digits_right = 0, signed = False,
         value_f = Fin False 80 0\<rparr>)\<rparr>)"
  by (simp add: multiply_def resolve_value_def strip_def is_space_def initial_MULT5 initial_MULT6
      field_defs arith_defs ctx_defs ndigits.simps)

lemma Field_set_exponent:
  assumes "Etiny \<le> - int (digits_right f)" and "Field_set f raw r = (Inr True, f')"
  shows "\<exists>s c. value_f f' = Fin s c (- int (digits_right f))"
proof -
  from Field_set_success [OF assms(2)] obtain x where
    q: "Field_quantize f x r = Inr (value_f f')" and fit: "Field_fits f (value_f f') = Inr True"
    by blast
  from Field_fits_True [OF fit] Field_quantize_is_finite [OF q] obtain s c e where
    "x = Fin s c e" by (cases x) auto
  with Field_quantize_in_range [OF assms(1), of s c e r "value_f f'"] q show ?thesis by blast
qed

section \<open>What a successful multiplication stores\<close>

lemma Field_quantize_value_f [simp]:
  "Field_quantize (g\<lparr>value_f := x\<rparr>) d r = Field_quantize g d r"
  by (simp add: Field_quantize_def)

lemma Field_fits_value_f [simp]: "Field_fits (g\<lparr>value_f := x\<rparr>) v = Field_fits g v"
proof -
  have "digits_left (g\<lparr>value_f := x\<rparr>) = digits_left g" "signed (g\<lparr>value_f := x\<rparr>) = signed g"
    by simp_all
  then show ?thesis unfolding Field_fits_def by (simp only:)
qed

lemma receives_value_f:
  "receives (g\<lparr>value_f := x\<rparr>) product r g' \<Longrightarrow> receives g product r g'"
  unfolding receives_def by auto

lemma multiply_loop_success:
  "multiply_loop q snaps rounded product ns = (Inr False, q') \<Longrightarrow>
   constants q' = constants q \<and>
   (\<forall>n. n \<notin> set ns \<longrightarrow> fields_p q' n = fields_p q n) \<and>
   (\<forall>n \<in> set ns. \<exists>g g'. fields_p q n = Some g \<and> fields_p q' n = Some g' \<and>
       receives g product (n \<in> set rounded) g')"
proof (induction ns arbitrary: q)
  case Nil
  then show ?case by simp
next
  case (Cons n ns)
  from Cons.prems obtain field where field: "fields_p q n = Some field"
    by (auto split: option.splits)
  obtain o1 field' where fs: "Field_set field (NDec product) (n \<in> set rounded) = (o1, field')"
    by (cases "Field_set field (NDec product) (n \<in> set rounded)")
  have o1: "o1 = Inr True"
  proof (rule ccontr)
    assume "o1 \<noteq> Inr True"
    with Cons.prems field fs show False
      by (cases o1) (auto split: bool.splits prod.splits option.splits)
  qed
  let ?q1 = "q\<lparr>fields_p := (fields_p q)(n \<mapsto> field')\<rparr>"
  from o1 Cons.prems field fs have rec: "multiply_loop ?q1 snaps rounded product ns = (Inr False, q')"
    by simp
  from Field_set_receives fs o1 have rcv: "receives field product (n \<in> set rounded) field'"
    by simp
  then obtain v where f': "field' = field\<lparr>value_f := v\<rparr>" unfolding receives_def by blast
  note IH = Cons.IH [OF rec]
  have c: "constants q' = constants q" using IH by simp
  have other: "fields_p q' m = fields_p q m" if "m \<notin> set (n # ns)" for m
    using IH that by simp
  have recv: "\<exists>g g'. fields_p q m = Some g \<and> fields_p q' m = Some g' \<and>
       receives g product (m \<in> set rounded) g'" if m: "m \<in> set (n # ns)" for m
  proof (cases "m \<in> set ns")
    case True
    with IH obtain g g' where g: "fields_p ?q1 m = Some g" "fields_p q' m = Some g'"
      "receives g product (m \<in> set rounded) g'" by blast
    show ?thesis
    proof (cases "m = n")
      case True
      with g f' have "receives (field\<lparr>value_f := v\<rparr>) product (n \<in> set rounded) g'" by simp
      then have "receives field product (n \<in> set rounded) g'" by (rule receives_value_f)
      with True field g(2) show ?thesis by simp
    next
      case False
      with g show ?thesis by simp
    qed
  next
    case False
    with m have mn: "m = n" by simp
    with False IH have "fields_p q' n = Some field'" by simp
    with mn field rcv show ?thesis by simp
  qed
  from c other recv show ?case by blast
qed

lemma multiply_success:
  assumes "multiply p m mu add rs = (Inr False, p')"
  shows "\<exists>mv mf product.
           resolve_value p m = Inr mv \<and> fields_p p mu = Some mf \<and>
           dec_mul mv (value_f mf) = Inr product \<and> constants p' = constants p \<and>
           (\<forall>n. n \<notin> set (mu # add) \<longrightarrow> fields_p p' n = fields_p p n) \<and>
           (\<forall>n \<in> set (mu # add). \<exists>g g'. fields_p p n = Some g \<and> fields_p p' n = Some g' \<and>
               receives g product (n \<in> set rs) g')"
proof -
  from multiply_unfold [OF assms] obtain mv mf snaps product where
    h: "resolve_value p m = Inr mv" "fields_p p mu = Some mf"
       "dec_mul mv (value_f mf) = Inr product"
    and lp: "multiply_loop p snaps rs product (mu # add) = (Inr False, p')"
    by blast
  from multiply_loop_success [OF lp] h show ?thesis by blast
qed

lemma dec_mul_finite:
  assumes "dec_mul a b = Inr (Fin s c e)"
  shows "\<exists>sa ca ea sb cb eb. a = Fin sa ca ea \<and> b = Fin sb cb eb \<and>
           dec_fix (Fin (sa \<noteq> sb) (ca * cb) (ea + eb)) = Inr (Fin s c e)"
  using assms unfolding dec_mul_def
  by (cases a; cases b) (auto split: if_splits)

lemma dec_fix_exact:
  assumes "dec_fix (Fin s c e) = Inr d" and "int (ndigits c) \<le> prec" and "Etiny \<le> e"
  shows "dval d = dval (Fin s c e)"
proof (cases "c = 0")
  case True
  with assms(1) show ?thesis unfolding dec_fix_def by auto
next
  case False
  with assms show ?thesis
    unfolding dec_fix_def by (auto simp: Let_def split: if_splits)
qed

lemma dval_mult:
  "dval (Fin (s \<noteq> t) (c * c') (e + e')) = dval (Fin s c e) * dval (Fin t c' e')"
  by (simp add: pow10_add)

lemma receives_value:
  assumes "receives g (Fin s c e) r g'" and "Etiny \<le> e"
  shows "g' = g\<lparr>value_f := value_f g'\<rparr> \<and>
         dval (value_f g') = quantized_value r (digits_right g) (dval (Fin s c e))"
proof -
  from assms(1) obtain v where q: "Field_quantize g (Fin s c e) r = Inr v"
    and g': "g' = g\<lparr>value_f := v\<rparr>"
    unfolding receives_def by blast
  define sg :: rat where "sg = (if s then - 1 else 1)"
  have sg: "sg = 1 \<or> sg = - 1" by (simp add: sg_def)
  have x: "dval (Fin s c e) = sg * of_nat c * pow10 e" by (simp add: sg_def)
  from Field_quantize_value [OF q]
  have v: "dval v = quantized_value r (nat (- max (- int (digits_right g)) Etiny)) (dval (Fin s c e))"
    by blast
  have "dval v = quantized_value r (digits_right g) (dval (Fin s c e))"
  proof (cases "Etiny \<le> - int (digits_right g)")
    case True
    then have "nat (- max (- int (digits_right g)) Etiny) = digits_right g" by simp
    with v show ?thesis by simp
  next
    case False
    then have m: "max (- int (digits_right g)) Etiny = Etiny" by simp
    have e1: "0 \<le> e + int (nat (- Etiny))" using assms(2) by (simp add: ctx_defs)
    have e2: "0 \<le> e + int (digits_right g)" using assms(2) False by simp
    have "quantized_value r (nat (- Etiny)) (dval (Fin s c e)) = dval (Fin s c e)"
      unfolding x by (rule quantized_value_exact [OF sg e1])
    moreover have "quantized_value r (digits_right g) (dval (Fin s c e)) = dval (Fin s c e)"
      unfolding x by (rule quantized_value_exact [OF sg e2])
    ultimately show ?thesis using v m by (simp only:)
  qed
  with g' show ?thesis by simp
qed

lemma receives_finite: "receives g product r g' \<Longrightarrow> is_finite product"
  unfolding receives_def
  using Field_fits_True Field_quantize_is_finite by blast

lemma trunc_to_small: "0 \<le> x \<Longrightarrow> x < 1 \<Longrightarrow> quantized_value False 0 x = 0"
proof -
  assume a: "0 \<le> x" "x < 1"
  then have "\<lfloor>\<bar>x\<bar>\<rfloor> = 0" by (simp add: floor_eq_iff)
  then show ?thesis by (simp add: quantized_value_def trunc_to_def)
qed

lemma mult_F1_17:
  "multiply initial (NStr ''WRK_DU_4P1_1'') ''WRK_DU_5V1_1'' [''WRK_DU_6V0_2''] [''WRK_DU_5V1_1''] =
     (Inr False, initial\<lparr>fields_p := (fields_p initial)
        (''WRK_DU_5V1_1'' \<mapsto>
           \<lparr>name = ''WRK_DU_5V1_1'', digits_left = 5, digits_right = 1, signed = False,
            value_f = Fin False 1 (- 1)\<rparr>,
         ''WRK_DU_6V0_2'' \<mapsto>
           \<lparr>name = ''WRK_DU_6V0_2'', digits_left = 6, digits_right = 0, signed = False,
            value_f = Fin False 0 0\<rparr>)\<rparr>)"
  by (simp add: multiply_def resolve_value_def strip_def is_space_def initial_WRK_DU_4P1_1
      initial_WRK_DU_5V1_1 initial_WRK_DU_6V0_2 AList.update.simps
      field_defs arith_defs ctx_defs ndigits.simps)

lemma resolve_long:
  "resolve_value initial (NStr ''0.2499999999999999999999999999999999999999999999999999999999999'') =
     Inr (Fin False 2499999999999999999999999999999999999999999999999999999999999 (- 61))"
  by (simp add: resolve_value_def init_defs init_constants_def parse_defs ndigits.simps)

lemma mult_long:
  "multiply initial (NStr ''0.2499999999999999999999999999999999999999999999999999999999999'')
       ''MULT5'' [] [] =
     (Inr False, initial\<lparr>fields_p := (fields_p initial)(''MULT5'' \<mapsto>
        \<lparr>name = ''MULT5'', digits_left = 1, digits_right = 0, signed = False,
         value_f = Fin False 1 0\<rparr>)\<rparr>)"
  by (simp add: multiply_def resolve_long initial_MULT5
      field_defs arith_defs ctx_defs ndigits.simps)

lemma multiply_success_values:
  assumes "multiply p m mu add rs = (Inr False, p')"
  shows "\<exists>mv mf product.
           resolve_value p m = Inr mv \<and> fields_p p mu = Some mf \<and>
           is_finite mv \<and> is_finite (value_f mf) \<and> is_finite product \<and>
           dec_mul mv (value_f mf) = Inr product \<and>
           (\<forall>n \<in> set (mu # add). \<exists>g g'. fields_p p n = Some g \<and> fields_p p' n = Some g' \<and>
               g' = g\<lparr>value_f := value_f g'\<rparr> \<and>
               dval (value_f g') = quantized_value (n \<in> set rs) (digits_right g) (dval product)) \<and>
           (exact_product_fits mv (value_f mf) \<longrightarrow> dval product = dval mv * dval (value_f mf))"
proof -
  from multiply_success [OF assms] obtain mv mf product where
    h: "resolve_value p m = Inr mv" "fields_p p mu = Some mf"
       "dec_mul mv (value_f mf) = Inr product"
    and rc: "\<forall>n \<in> set (mu # add). \<exists>g g'. fields_p p n = Some g \<and> fields_p p' n = Some g' \<and>
               receives g product (n \<in> set rs) g'"
    by blast
  from rc obtain g0 g0' where "receives g0 product (mu \<in> set rs) g0'" by fastforce
  then have "is_finite product" by (rule receives_finite)
  then obtain s c e where pr: "product = Fin s c e" by (cases product) auto
  from dec_mul_finite [of mv "value_f mf" s c e] h(3) pr obtain sa ca ea sb cb eb where
    ab: "mv = Fin sa ca ea" "value_f mf = Fin sb cb eb"
    and fx: "dec_fix (Fin (sa \<noteq> sb) (ca * cb) (ea + eb)) = Inr (Fin s c e)"
    by blast
  from dec_fix_exponent [OF fx] have e: "Etiny \<le> e" by simp
  have vals: "\<exists>g g'. fields_p p n = Some g \<and> fields_p p' n = Some g' \<and>
               g' = g\<lparr>value_f := value_f g'\<rparr> \<and>
               dval (value_f g') = quantized_value (n \<in> set rs) (digits_right g) (dval product)"
    if n: "n \<in> set (mu # add)" for n
  proof -
    from rc n obtain g g' where g: "fields_p p n = Some g" "fields_p p' n = Some g'"
      "receives g product (n \<in> set rs) g'" by blast
    from receives_value [of g s c e "n \<in> set rs" g'] g(3) pr e g(1,2) show ?thesis by simp
  qed
  have exact: "dval product = dval mv * dval (value_f mf)" if "exact_product_fits mv (value_f mf)"
  proof -
    from that ab have "int (ndigits (ca * cb)) \<le> prec" "Etiny \<le> ea + eb"
      by (simp_all add: exact_product_fits_def)
    from dec_fix_exact [OF fx this] pr ab show ?thesis
      by (simp only: dval_mult)
  qed
  have fin: "is_finite mv" "is_finite (value_f mf)" "is_finite product"
    using ab pr by simp_all
  have vals': "\<forall>n \<in> set (mu # add). \<exists>g g'. fields_p p n = Some g \<and> fields_p p' n = Some g' \<and>
               g' = g\<lparr>value_f := value_f g'\<rparr> \<and>
               dval (value_f g') = quantized_value (n \<in> set rs) (digits_right g) (dval product)"
    using vals by blast
  have exact': "exact_product_fits mv (value_f mf) \<longrightarrow> dval product = dval mv * dval (value_f mf)"
    using exact by blast
  from h fin vals' exact' show ?thesis by blast
qed

text \<open>
  Claim C2 as it is stated fails. The multiplicand \<open>0.2499...9\<close> (61 digits) times the
  value 4 of \<^verbatim>\<open>MULT5\<close> is exactly \<open>0.99...96\<close>, which truncates to 0; the context
  first rounds the product to 60 digits, that is to 1, and \<^verbatim>\<open>MULT5\<close> receives 1.
\<close>

theorem product_is_rounded_to_60_digits_first:
  "resolve_value initial (NStr ''0.2499999999999999999999999999999999999999999999999999999999999'') =
     Inr (Fin False 2499999999999999999999999999999999999999999999999999999999999 (- 61)) \<and>
   fields_p initial ''MULT5'' =
     Some \<lparr>name = ''MULT5'', digits_left = 1, digits_right = 0, signed = False,
           value_f = Fin False 4 0\<rparr> \<and>
   multiply initial (NStr ''0.2499999999999999999999999999999999999999999999999999999999999'')
       ''MULT5'' [] [] =
     (Inr False, initial\<lparr>fields_p := (fields_p initial)(''MULT5'' \<mapsto>
        \<lparr>name = ''MULT5'', digits_left = 1, digits_right = 0, signed = False,
         value_f = Fin False 1 0\<rparr>)\<rparr>) \<and>
   dval (Fin False 1 0) = 1 \<and>
   quantized_value False 0
     (dval (Fin False 2499999999999999999999999999999999999999999999999999999999999 (- 61)) *
      dval (Fin False 4 0)) = 0"
proof -
  have "quantized_value False 0
     (dval (Fin False 2499999999999999999999999999999999999999999999999999999999999 (- 61)) *
      dval (Fin False 4 0)) = 0"
    by (rule trunc_to_small) (simp_all add: pow10_def)
  moreover have "dval (Fin False 1 0) = 1" by (simp add: pow10_def)
  ultimately show ?thesis
    using resolve_long mult_long initial_MULT5 by (simp only: simp_thms)
qed

text \<open>
  Claim C2, amended. After a call of \<^verbatim>\<open>_multiply\<close> that returns \<^verbatim>\<open>False\<close>, every
  receiver holds the product as the context computes it from the multiplicand and the
  value the multiplier field had before the call (the exact product rounded half-even to
  60 significant digits, which is the exact product whenever that has at most 60 digits
  and an exponent within the range of the context), quantized to the receiver's own
  \<open>digits_right\<close>, by rounding half up when the receiver is named in the rounded set
  and by truncation otherwise. On the initial registry, \<open>0.00001\<close> times \<open>12345.6\<close>
  stores \<open>0.1\<close> in the receiver rounded to one fractional digit and \<open>0\<close> in the
  receiver truncated to none.
\<close>

theorem successful_multiply_stores_quantized_product:
  assumes "multiply p multiplicand multiplier additional rounded = (Inr False, p')"
  shows "(\<exists>mv mf product.
           resolve_value p multiplicand = Inr mv \<and> fields_p p multiplier = Some mf \<and>
           is_finite mv \<and> is_finite (value_f mf) \<and> is_finite product \<and>
           dec_mul mv (value_f mf) = Inr product \<and>
           (\<forall>n \<in> set (multiplier # additional).
              \<exists>g g'. fields_p p n = Some g \<and> fields_p p' n = Some g' \<and>
                g' = g\<lparr>value_f := value_f g'\<rparr> \<and>
                dval (value_f g') =
                  quantized_value (n \<in> set rounded) (digits_right g) (dval product)) \<and>
           (exact_product_fits mv (value_f mf) \<longrightarrow>
              dval product = dval mv * dval (value_f mf))) \<and>
         multiply initial (NStr ''WRK_DU_4P1_1'') ''WRK_DU_5V1_1'' [''WRK_DU_6V0_2'']
             [''WRK_DU_5V1_1''] =
           (Inr False, initial\<lparr>fields_p := (fields_p initial)
              (''WRK_DU_5V1_1'' \<mapsto>
                 \<lparr>name = ''WRK_DU_5V1_1'', digits_left = 5, digits_right = 1, signed = False,
                  value_f = Fin False 1 (- 1)\<rparr>,
               ''WRK_DU_6V0_2'' \<mapsto>
                 \<lparr>name = ''WRK_DU_6V0_2'', digits_left = 6, digits_right = 0, signed = False,
                  value_f = Fin False 0 0\<rparr>)\<rparr>)"
  using multiply_success_values [OF assms] mult_F1_17 by (simp only: simp_thms)

theorem successful_multiply_stores_quantized_product_witness:
  "multiply initial (NStr ''MULT5'') ''MULT6'' [] [] =
     (Inr False, initial\<lparr>fields_p := (fields_p initial)(''MULT6'' \<mapsto>
        \<lparr>name = ''MULT6'', digits_left = 2, digits_right = 0, signed = False,
         value_f = Fin False 80 0\<rparr>)\<rparr>) \<and>
   resolve_value initial (NStr ''MULT5'') = Inr (Fin False 4 0) \<and>
   dec_mul (Fin False 4 0) (Fin False 20 0) = Inr (Fin False 80 0) \<and>
   exact_product_fits (Fin False 4 0) (Fin False 20 0) \<and>
   dval (Fin False 80 0) = dval (Fin False 4 0) * dval (Fin False 20 0) \<and>
   dval (Fin False 80 0) = quantized_value False 0 (dval (Fin False 80 0))"
proof -
  let ?p' = "initial\<lparr>fields_p := (fields_p initial)(''MULT6'' \<mapsto>
        \<lparr>name = ''MULT6'', digits_left = 2, digits_right = 0, signed = False,
         value_f = Fin False 80 0\<rparr>)\<rparr>"
  have rv: "resolve_value initial (NStr ''MULT5'') = Inr (Fin False 4 0)"
    by (simp add: resolve_value_def strip_def is_space_def initial_MULT5)
  have dm: "dec_mul (Fin False 4 0) (Fin False 20 0) = Inr (Fin False 80 0)"
    by (simp add: arith_defs ctx_defs ndigits.simps)
  have ex: "exact_product_fits (Fin False 4 0) (Fin False 20 0)"
    by (simp add: exact_product_fits_def ctx_defs ndigits.simps)
  from successful_multiply_stores_quantized_product [OF mult56] obtain mv mf product where
    h: "resolve_value initial (NStr ''MULT5'') = Inr mv" "fields_p initial ''MULT6'' = Some mf"
       "dec_mul mv (value_f mf) = Inr product"
       "\<forall>n \<in> set [''MULT6'']. \<exists>g g'. fields_p initial n = Some g \<and> fields_p ?p' n = Some g' \<and>
                g' = g\<lparr>value_f := value_f g'\<rparr> \<and>
                dval (value_f g') = quantized_value (n \<in> set []) (digits_right g) (dval product)"
       "exact_product_fits mv (value_f mf) \<longrightarrow> dval product = dval mv * dval (value_f mf)"
    by blast
  from h(1) rv have mv: "mv = Fin False 4 0" by simp
  from h(2) initial_MULT6 have mf: "value_f mf = Fin False 20 0" by auto
  from h(3) mv mf dm have pr: "product = Fin False 80 0" by simp
  from h(5) mv mf pr ex have e1: "dval (Fin False 80 0) = dval (Fin False 4 0) * dval (Fin False 20 0)"
    by simp
  from h(4) pr initial_MULT6 have e2: "dval (Fin False 80 0) = quantized_value False 0 (dval (Fin False 80 0))"
    by auto
  from mult56 rv dm ex e1 e2 show ?thesis by (simp only: simp_thms)
qed

text \<open>
  Claim C5. Whenever \<^verbatim>\<open>_multiply\<close> returns, the product was computed from the
  multiplicand as resolved in the state before the call and from the value the multiplier
  field held before the call: after a size error the state is the one before the call, and
  otherwise every receiver holds the quantization of that one product. Multiplying
  \<^verbatim>\<open>MULT5\<close>, a one-digit field holding 4, by itself computes 16, returns the size
  error and leaves 4 in the field.
\<close>

theorem product_uses_pre_call_multiplier:
  assumes "multiply p multiplicand multiplier additional rounded = (Inr b, p')"
  shows "(\<exists>mv mf product.
            resolve_value p multiplicand = Inr mv \<and> fields_p p multiplier = Some mf \<and>
            dec_mul mv (value_f mf) = Inr product \<and>
            (if b then p' = p
             else (\<forall>n \<in> set (multiplier # additional).
                     \<exists>g v. fields_p p n = Some g \<and>
                       Field_quantize g product (n \<in> set rounded) = Inr v \<and>
                       Field_fits g v = Inr True \<and>
                       fields_p p' n = Some (g\<lparr>value_f := v\<rparr>)))) \<and>
         resolve_value initial (NStr ''MULT5'') = Inr (Fin False 4 0) \<and>
         fields_p initial ''MULT5'' =
           Some \<lparr>name = ''MULT5'', digits_left = 1, digits_right = 0, signed = False,
                 value_f = Fin False 4 0\<rparr> \<and>
         dec_mul (Fin False 4 0) (Fin False 4 0) = Inr (Fin False 16 0) \<and>
         multiply initial (NStr ''MULT5'') ''MULT5'' [] [] = (Inr True, initial)"
proof -
  have gen: "\<exists>mv mf product.
            resolve_value p multiplicand = Inr mv \<and> fields_p p multiplier = Some mf \<and>
            dec_mul mv (value_f mf) = Inr product \<and>
            (if b then p' = p
             else (\<forall>n \<in> set (multiplier # additional).
                     \<exists>g v. fields_p p n = Some g \<and>
                       Field_quantize g product (n \<in> set rounded) = Inr v \<and>
                       Field_fits g v = Inr True \<and>
                       fields_p p' n = Some (g\<lparr>value_f := v\<rparr>)))"
  proof (cases b)
    case True
    with assms have "multiply p multiplicand multiplier additional rounded = (Inr True, p')"
      by simp
    then have "p' = p" by (rule multiply_size_error_state)
    with multiply_unfold [OF assms] True show ?thesis by auto
  next
    case False
    with multiply_success [of p multiplicand multiplier additional rounded p'] assms
    show ?thesis unfolding receives_def by (simp only: if_False) blast
  qed
  have rv: "resolve_value initial (NStr ''MULT5'') = Inr (Fin False 4 0)"
    by (simp add: resolve_value_def strip_def is_space_def initial_MULT5)
  have dm: "dec_mul (Fin False 4 0) (Fin False 4 0) = Inr (Fin False 16 0)"
    by (simp add: arith_defs ctx_defs ndigits.simps)
  from gen rv dm initial_MULT5 mult55 show ?thesis by (simp only: simp_thms)
qed

theorem product_uses_pre_call_multiplier_witness:
  "multiply initial (NStr ''MULT5'') ''MULT5'' [] [] = (Inr True, initial) \<and>
   resolve_value initial (NStr ''MULT5'') = Inr (Fin False 4 0) \<and>
   dec_mul (Fin False 4 0) (Fin False 4 0) = Inr (Fin False 16 0) \<and>
   fields_p (snd (multiply initial (NStr ''MULT5'') ''MULT5'' [] [])) ''MULT5'' =
     Some \<lparr>name = ''MULT5'', digits_left = 1, digits_right = 0, signed = False,
           value_f = Fin False 4 0\<rparr>"
  using product_uses_pre_call_multiplier [OF mult55] mult55 by simp

section \<open>The written form of the stored values\<close>

lemma Field_set_inv_exact:
  assumes "Field_set f raw r = (out, f')" and "Etiny \<le> - int (digits_right f)"
    and "field_inv_exact f"
  shows "field_inv_exact f'"
proof -
  from Field_set_cases [OF assms(1)] show ?thesis
  proof
    assume "out = Inr True \<and> (\<exists>d v. Decimal_of raw = Inr d \<and> Field_quantize f d r = Inr v \<and>
             Field_fits f v = Inr True \<and> f' = f\<lparr>value_f := v\<rparr>)"
    then obtain d v where ok: "out = Inr True" and fit: "Field_fits f v = Inr True"
      and f': "f' = f\<lparr>value_f := v\<rparr>"
      by blast
    from Field_fits_True [OF fit] have fv: "fits_value f (dval v)" by simp
    from Field_set_exponent [OF assms(2), of raw r f'] assms(1) ok f'
    obtain s c where "v = Fin s c (- int (digits_right f))" by auto
    with fv f' show ?thesis
      by (simp add: field_inv_exact_def exactly_quantized_def fits_value_def)
  next
    assume "out \<noteq> Inr True \<and> f' = f"
    with assms(3) show ?thesis by simp
  qed
qed

lemma multiply_loop_keeps:
  assumes step: "\<And>n g raw r out g'. Q n g \<Longrightarrow> Field_set g raw r = (out, g') \<Longrightarrow> Q n g'"
  shows "multiply_loop q snaps rounded product ns = (out, q') \<Longrightarrow>
   differs_only_in q p (fst ` set snaps) \<Longrightarrow> snaps_of p snaps \<Longrightarrow>
   set ns \<subseteq> fst ` set snaps \<Longrightarrow> (\<forall>n g. fields_p p n = Some g \<longrightarrow> Q n g) \<Longrightarrow>
   (\<forall>n g. fields_p q n = Some g \<longrightarrow> Q n g) \<Longrightarrow> (\<forall>n g. fields_p q' n = Some g \<longrightarrow> Q n g)"
proof (induction ns arbitrary: q)
  case Nil
  then show ?case by simp
next
  case (Cons n ns)
  show ?case
  proof (cases "fields_p q n")
    case None
    with Cons.prems(1,6) show ?thesis by simp
  next
    case (Some field)
    obtain o1 field' where fs: "Field_set field (NDec product) (n \<in> set rounded) = (o1, field')"
      by (cases "Field_set field (NDec product) (n \<in> set rounded)")
    have "Q n field" using Cons.prems(6) Some by blast
    from step [OF this fs] have inv': "Q n field'" .
    let ?q1 = "q\<lparr>fields_p := (fields_p q)(n \<mapsto> field')\<rparr>"
    have q1: "\<forall>k g. fields_p ?q1 k = Some g \<longrightarrow> Q k g"
      using Cons.prems(6) inv' by auto
    from Field_set_cases [OF fs] show ?thesis
    proof
      assume ok: "o1 = Inr True \<and> (\<exists>d v. Decimal_of (NDec product) = Inr d \<and>
         Field_quantize field d (n \<in> set rounded) = Inr v \<and>
         Field_fits field v = Inr True \<and> field' = field\<lparr>value_f := v\<rparr>)"
      from ok Cons.prems(1) Some fs
      have rec: "multiply_loop ?q1 snaps rounded product ns = (out, q')"
        by simp
      have nk: "n \<in> fst ` set snaps" using Cons.prems(4) by simp
      have d1: "differs_only_in ?q1 p (fst ` set snaps)"
        using differs_only_in_update [OF Cons.prems(2) nk Some] ok by auto
      from Cons.prems(4) have sub: "set ns \<subseteq> fst ` set snaps" by simp
      from Cons.IH [OF rec d1 Cons.prems(3) sub Cons.prems(5) q1] show ?thesis .
    next
      assume bad: "o1 \<noteq> Inr True \<and> field' = field"
      then have same: "?q1 = q"
        using Some by (simp add: fun_upd_idem)
      have r: "restore q snaps = (None, p)"
        using restore_all [OF Cons.prems(2) Cons.prems(3)] .
      show ?thesis
      proof (cases o1)
        case (Inl e)
        with Cons.prems(1) Some fs same have "q' = q" by simp
        with Cons.prems(6) show ?thesis by simp
      next
        case (Inr b)
        with bad have "b = False" by simp
        with Inr Cons.prems(1) Some fs same r have "q' = p" by simp
        with Cons.prems(5) show ?thesis by simp
      qed
    qed
  qed
qed

lemma multiply_keeps:
  assumes step: "\<And>n g raw r out g'. Q n g \<Longrightarrow> Field_set g raw r = (out, g') \<Longrightarrow> Q n g'"
    and m: "multiply p m mu add rs = (out, p')"
    and inv: "\<forall>n g. fields_p p n = Some g \<longrightarrow> Q n g"
  shows "\<forall>n g. fields_p p' n = Some g \<longrightarrow> Q n g"
proof (cases "p' = p")
  case True
  with inv show ?thesis by simp
next
  case False
  with m obtain mv mf snaps product where
    sn: "snapshots p (mu # add) [] = Inr snaps"
    and lp: "multiply_loop p snaps rs product (mu # add) = (out, p')"
    unfolding multiply_def by (auto simp: Let_def split: sum.splits option.splits)
  have s1: "snaps_of p snaps"
    using snapshots_sound [OF sn] by (simp add: snaps_of_def)
  have s2: "set (mu # add) \<subseteq> fst ` set snaps"
    using snapshots_keys [OF sn] by simp
  from multiply_loop_keeps [of Q, OF step lp differs_only_in_refl s1 s2 inv inv] show ?thesis .
qed

lemma multiply_keeps_exact:
  assumes m: "multiply p m mu add rs = (out, p')"
    and g: "fields_p p n = Some g" and g': "fields_p p' n = Some g'"
    and rng: "Etiny \<le> - int (digits_right g)" and ex: "field_inv_exact g"
  shows "field_inv_exact g' \<and> digits_right g' = digits_right g"
proof -
  define Q where "Q = (\<lambda>k h. k = n \<longrightarrow> digits_right h = digits_right g \<and> field_inv_exact h)"
  have step: "Q k h'" if "Q k h" "Field_set h raw r = (o1, h')" for k h raw r o1 h'
  proof -
    from Field_set_cases [OF that(2)] have dr: "digits_right h' = digits_right h" by auto
    show ?thesis
      using that Field_set_inv_exact [OF that(2)] rng dr unfolding Q_def by auto
  qed
  have inv: "\<forall>k h. fields_p p k = Some h \<longrightarrow> Q k h"
    using g ex unfolding Q_def by auto
  have "\<forall>k h. fields_p p' k = Some h \<longrightarrow> Q k h"
  proof (rule multiply_keeps [of Q, OF _ m inv])
    fix k h raw r o1 h'
    assume "Q k h" "Field_set h raw r = (o1, h')"
    then show "Q k h'" by (rule step)
  qed
  with g' show ?thesis
    unfolding Q_def by blast
qed

lemma multiply_receivers_exact:
  assumes m: "multiply p m mu add rs = (Inr False, p')"
    and n: "n \<in> set (mu # add)" and g': "fields_p p' n = Some g'"
    and rng: "Etiny \<le> - int (digits_right g')"
  shows "field_inv_exact g'"
proof -
  from multiply_success [OF m] n obtain product g h where
    h: "fields_p p' n = Some h" and rc: "receives g product (n \<in> set rs) h"
    by blast
  from h g' have hg: "h = g'" by simp
  from rc obtain v where q: "Field_quantize g product (n \<in> set rs) = Inr v"
    and fit: "Field_fits g v = Inr True" and upd: "h = g\<lparr>value_f := v\<rparr>"
    unfolding receives_def by blast
  from Field_fits_True [OF fit] have fin: "is_finite v" and fv: "fits_value g (dval v)"
    by simp_all
  from Field_quantize_is_finite [OF q] fin obtain s c e where d: "product = Fin s c e"
    by (cases product) auto
  from hg upd have g'eq: "g' = g\<lparr>value_f := v\<rparr>" by simp
  have rng': "Etiny \<le> - int (digits_right g)" using rng unfolding g'eq by simp
  from Field_quantize_in_range [OF rng', of s c e "n \<in> set rs" v] q d
  obtain c' where "v = Fin s c' (- int (digits_right g))" by blast
  with fv show ?thesis
    unfolding g'eq by (simp add: field_inv_exact_def exactly_quantized_def fits_value_def)
qed

lemma initial_WRK_DU_0V12_1:
  "fields_p initial ''WRK_DU_0V12_1'' =
     Some \<lparr>name = ''WRK_DU_0V12_1'', digits_left = 0, digits_right = 12, signed = False,
           value_f = Fin False 1 (- 5)\<rparr>"
  by (simp add: init_defs parse_defs ndigits.simps)

lemma Field_set_stores_exact:
  assumes "Etiny \<le> - int (digits_right f)" and "Field_set f raw r = (Inr True, f')"
  shows "field_inv_exact f'"
proof -
  from Field_set_success [OF assms(2)] have fit: "Field_fits f (value_f f') = Inr True"
    and f': "f' = f\<lparr>value_f := value_f f'\<rparr>" by blast+
  from Field_fits_True [OF fit] have fv: "fits_value f (dval (value_f f'))" by simp
  have dr: "digits_right f' = digits_right f" and dl: "digits_left f' = digits_left f"
    and sg: "signed f' = signed f"
    by (subst f', simp)+
  from Field_set_exponent [OF assms] obtain s c where
    "value_f f' = Fin s c (- int (digits_right f))" by blast
  with fv dr dl sg show ?thesis
    by (simp add: field_inv_exact_def exactly_quantized_def fits_value_def)
qed

lemma exact_step:
  assumes "Etiny \<le> - int (digits_right g) \<and> (P \<longrightarrow> field_inv_exact g)"
    and "Field_set g raw r = (out, g')"
  shows "Etiny \<le> - int (digits_right g') \<and> (P \<longrightarrow> field_inv_exact g')"
proof -
  from Field_set_cases [OF assms(2)] have "digits_right g' = digits_right g" by auto
  with assms Field_set_inv_exact [OF assms(2)] show ?thesis by auto
qed

lemma initial_exact:
  "fields_p initial n = Some g \<Longrightarrow>
   Etiny \<le> - int (digits_right g) \<and>
   (n \<noteq> ''WRK_DS_06V06'' \<and> n \<noteq> ''WRK_DU_0V12_1'' \<longrightarrow> field_inv_exact g)"
  by (auto simp: init_defs parse_defs ndigits.simps field_inv_exact_def exactly_quantized_def
      fits_value_def pow10_def ctx_defs split: if_splits)

lemma reachable_exact:
  "reachable p \<Longrightarrow>
   \<forall>n g. fields_p p n = Some g \<longrightarrow>
     Etiny \<le> - int (digits_right g) \<and>
     (n \<noteq> ''WRK_DS_06V06'' \<and> n \<noteq> ''WRK_DU_0V12_1'' \<longrightarrow> field_inv_exact g)"
proof (induction rule: reachable.induct)
  case reach_init
  show ?case using initial_exact by blast
next
  case (reach_set p n f raw rounded out f')
  from reach_set.IH reach_set.hyps(2) have
    "Etiny \<le> - int (digits_right f) \<and>
     (n \<noteq> ''WRK_DS_06V06'' \<and> n \<noteq> ''WRK_DU_0V12_1'' \<longrightarrow> field_inv_exact f)" by blast
  from exact_step [OF this reach_set.hyps(3)] reach_set.IH show ?case by auto
next
  case (reach_multiply p multiplicand multiplier additional rounded out p')
  show ?case
  proof (rule multiply_keeps [of "\<lambda>n g. Etiny \<le> - int (digits_right g) \<and>
     (n \<noteq> ''WRK_DS_06V06'' \<and> n \<noteq> ''WRK_DU_0V12_1'' \<longrightarrow> field_inv_exact g)",
     OF _ reach_multiply.hyps(2) reach_multiply.IH])
    fix n g raw r out g'
    assume "Etiny \<le> - int (digits_right g) \<and>
       (n \<noteq> ''WRK_DS_06V06'' \<and> n \<noteq> ''WRK_DU_0V12_1'' \<longrightarrow> field_inv_exact g)"
      and "Field_set g raw r = (out, g')"
    then show "Etiny \<le> - int (digits_right g') \<and>
       (n \<noteq> ''WRK_DS_06V06'' \<and> n \<noteq> ''WRK_DU_0V12_1'' \<longrightarrow> field_inv_exact g')"
      by (rule exact_step)
  qed
qed

lemma mult5_0V12:
  "multiply initial (NStr ''MULT5'') ''WRK_DU_0V12_1'' [] [] =
     (Inr False, initial\<lparr>fields_p := (fields_p initial)(''WRK_DU_0V12_1'' \<mapsto>
        \<lparr>name = ''WRK_DU_0V12_1'', digits_left = 0, digits_right = 12, signed = False,
         value_f = Fin False 40000000 (- 12)\<rparr>)\<rparr>)"
  by (simp add: multiply_def resolve_value_def strip_def is_space_def initial_MULT5
      initial_WRK_DU_0V12_1 field_defs arith_defs ctx_defs ndigits.simps)

text \<open>
  Claim C8 as it is stated fails. The registry is filled with the initial literals as
  they are written, not through \<^verbatim>\<open>set\<close>: the field \<^verbatim>\<open>WRK_DU_0V12_1\<close>, with
  twelve fractional digits, starts with \<open>0.00001\<close>, written with five, and a
  \<^verbatim>\<open>set\<close> that fails leaves it so.
\<close>

theorem initial_value_keeps_its_own_fractional_digits:
  "fields_p initial ''WRK_DU_0V12_1'' =
     Some \<lparr>name = ''WRK_DU_0V12_1'', digits_left = 0, digits_right = 12, signed = False,
           value_f = Fin False 1 (- 5)\<rparr> \<and>
   Field_set \<lparr>name = ''WRK_DU_0V12_1'', digits_left = 0, digits_right = 12, signed = False,
           value_f = Fin False 1 (- 5)\<rparr> (NStr ''abc'') False =
     (Inr False, \<lparr>name = ''WRK_DU_0V12_1'', digits_left = 0, digits_right = 12, signed = False,
           value_f = Fin False 1 (- 5)\<rparr>) \<and>
   \<not> exactly_quantized 12 (Fin False 1 (- 5))"
  by (simp add: initial_WRK_DU_0V12_1 eval_defs exactly_quantized_def)

text \<open>
  Claim C8, amended. In every state that a run reaches from the initial registry by
  calls of \<^verbatim>\<open>set\<close> and \<^verbatim>\<open>_multiply\<close>, whatever their outcome, every field
  holds a finite value that is a whole number of units of its last fractional place and
  satisfies the width and sign constraint; the initial registry satisfies this, and
  \<^verbatim>\<open>set\<close> and \<^verbatim>\<open>_multiply\<close> (the rollback included) preserve it from any state
  that does. Every field other than \<^verbatim>\<open>WRK_DS_06V06\<close> and \<^verbatim>\<open>WRK_DU_0V12_1\<close>
  is moreover written with exactly \<open>digits_right\<close> fractional digits in every such
  state, and every field of such a state has a \<open>digits_right\<close> that the context can
  represent. For those two fields, and for any field at all: a successful \<^verbatim>\<open>set\<close>
  leaves the field written with exactly \<open>digits_right\<close> fractional digits and
  within its width, so does a successful \<^verbatim>\<open>_multiply\<close> for each of its receivers,
  and a field that is so written stays so through every later \<^verbatim>\<open>set\<close> and
  \<^verbatim>\<open>_multiply\<close>, whatever their outcome.
\<close>

theorem fields_stay_normalised:
  "(reachable p \<longrightarrow> (\<forall>n f. fields_p p n = Some f \<longrightarrow> field_inv f)) \<and>
   (field_inv f \<longrightarrow> Field_set f raw rounded = (out, f') \<longrightarrow> field_inv f') \<and>
   (registry_inv p0 \<longrightarrow> multiply p0 multiplicand multiplier additional rounded_receivers = (out', p1) \<longrightarrow>
      registry_inv p1) \<and>
   registry_inv initial \<and>
   (Etiny \<le> - int (digits_right f) \<longrightarrow> Field_set f raw rounded = (Inr True, f') \<longrightarrow>
      (\<exists>s c. value_f f' = Fin s c (- int (digits_right f)))) \<and>
   (reachable p \<longrightarrow>
      (\<forall>n g. fields_p p n = Some g \<longrightarrow> n \<noteq> ''WRK_DS_06V06'' \<and> n \<noteq> ''WRK_DU_0V12_1'' \<longrightarrow>
         field_inv_exact g)) \<and>
   (reachable p \<longrightarrow> (\<forall>n g. fields_p p n = Some g \<longrightarrow> Etiny \<le> - int (digits_right g))) \<and>
   (Etiny \<le> - int (digits_right f) \<longrightarrow> Field_set f raw rounded = (Inr True, f') \<longrightarrow>
      field_inv_exact f') \<and>
   (Etiny \<le> - int (digits_right f) \<longrightarrow> field_inv_exact f \<longrightarrow>
      Field_set f raw rounded = (out, f') \<longrightarrow> field_inv_exact f') \<and>
   (multiply p0 multiplicand multiplier additional rounded_receivers = (out', p1) \<longrightarrow>
      fields_p p0 k = Some g0 \<longrightarrow> fields_p p1 k = Some g1 \<longrightarrow>
      Etiny \<le> - int (digits_right g0) \<longrightarrow> field_inv_exact g0 \<longrightarrow> field_inv_exact g1) \<and>
   (multiply p0 multiplicand multiplier additional rounded_receivers = (Inr False, p1) \<longrightarrow>
      k \<in> set (multiplier # additional) \<longrightarrow> fields_p p1 k = Some g1 \<longrightarrow>
      Etiny \<le> - int (digits_right g1) \<longrightarrow> field_inv_exact g1)"
  apply (intro conjI impI)
  subgoal using reachable_inv [of p] unfolding registry_inv_def by blast
  subgoal using Field_set_inv [of f raw rounded out f'] by blast
  subgoal using multiply_inv [of p0 multiplicand multiplier additional rounded_receivers out' p1] by blast
  subgoal by (rule initial_inv)
  subgoal using Field_set_exponent [of f raw rounded f'] by blast
  subgoal using reachable_exact [of p] by blast
  subgoal using reachable_exact [of p] by blast
  subgoal using Field_set_stores_exact [of f raw rounded f'] by blast
  subgoal using Field_set_inv_exact [of f raw rounded out f'] by blast
  subgoal using multiply_keeps_exact [of p0 multiplicand multiplier additional rounded_receivers out' p1 k g0 g1] by blast
  subgoal using multiply_receivers_exact [of p0 multiplicand multiplier additional rounded_receivers p1 k g1] by blast
  done

theorem fields_stay_normalised_witness:
  "reachable (snd (multiply initial (NStr ''MULT5'') ''MULT6'' [] [])) \<and>
   fields_p (snd (multiply initial (NStr ''MULT5'') ''MULT6'' [] [])) ''MULT6'' =
     Some \<lparr>name = ''MULT6'', digits_left = 2, digits_right = 0, signed = False,
           value_f = Fin False 80 0\<rparr> \<and>
   field_inv \<lparr>name = ''MULT6'', digits_left = 2, digits_right = 0, signed = False,
           value_f = Fin False 80 0\<rparr> \<and>
   field_inv_exact \<lparr>name = ''MULT6'', digits_left = 2, digits_right = 0, signed = False,
           value_f = Fin False 80 0\<rparr> \<and>
   multiply initial (NStr ''MULT5'') ''WRK_DU_0V12_1'' [] [] =
     (Inr False, initial\<lparr>fields_p := (fields_p initial)(''WRK_DU_0V12_1'' \<mapsto>
        \<lparr>name = ''WRK_DU_0V12_1'', digits_left = 0, digits_right = 12, signed = False,
         value_f = Fin False 40000000 (- 12)\<rparr>)\<rparr>) \<and>
   field_inv_exact \<lparr>name = ''WRK_DU_0V12_1'', digits_left = 0, digits_right = 12, signed = False,
         value_f = Fin False 40000000 (- 12)\<rparr>"
proof -
  let ?p = "snd (multiply initial (NStr ''MULT5'') ''MULT6'' [] [])"
  let ?g = "\<lparr>name = ''MULT6'', digits_left = 2, digits_right = 0, signed = False,
           value_f = Fin False 80 0\<rparr>"
  let ?h = "\<lparr>name = ''WRK_DU_0V12_1'', digits_left = 0, digits_right = 12, signed = False,
         value_f = Fin False 40000000 (- 12)\<rparr>"
  let ?p1 = "initial\<lparr>fields_p := (fields_p initial)(''WRK_DU_0V12_1'' \<mapsto> ?h)\<rparr>"
  have r: "reachable ?p"
    using reach_multiply [OF reach_init, of "NStr ''MULT5''" "''MULT6''" "[]" "[]"
        "fst (multiply initial (NStr ''MULT5'') ''MULT6'' [] [])" ?p]
    by simp
  have f: "fields_p ?p ''MULT6'' = Some ?g"
    by (simp add: mult56)
  have ne: "''MULT6'' \<noteq> ''WRK_DS_06V06'' \<and> ''MULT6'' \<noteq> ''WRK_DU_0V12_1''" by simp
  note T = fields_stay_normalised [of ?p]
  from T [THEN conjunct1] r f have a: "field_inv ?g" by blast
  from T [THEN conjunct2, THEN conjunct2, THEN conjunct2, THEN conjunct2, THEN conjunct2,
      THEN conjunct1] r f ne
  have b: "field_inv_exact ?g" by blast
  have k: "''WRK_DU_0V12_1'' \<in> set [''WRK_DU_0V12_1'']" by simp
  have h: "fields_p ?p1 ''WRK_DU_0V12_1'' = Some ?h" by simp
  have rng: "Etiny \<le> - int (digits_right ?h)" by (simp add: ctx_defs)
  note U = fields_stay_normalised [where ?p0.0 = initial and multiplicand = "NStr ''MULT5''"
      and multiplier = "''WRK_DU_0V12_1''" and additional = "[]" and rounded_receivers = "[]"
      and ?p1.0 = ?p1 and k = "''WRK_DU_0V12_1''" and ?g1.0 = ?h]
  from U [THEN conjunct2, THEN conjunct2, THEN conjunct2, THEN conjunct2, THEN conjunct2,
      THEN conjunct2, THEN conjunct2, THEN conjunct2, THEN conjunct2, THEN conjunct2]
    mult5_0V12 k h rng
  have c: "field_inv_exact ?h" by (simp only: simp_thms)
  from r f a b c mult5_0V12 show ?thesis by (simp only: simp_thms)
qed

end
